theory Spec2Isabelle
  imports Complex_Main "HOL-Library.Sublist"
begin

section \<open>JavaScript values used by the data pipeline\<close>

text \<open>
  A JavaScript Number is modelled by its mathematical value: a finite double is the
  rational it denotes, next to the two infinities and NaN. The code below only compares
  numbers, takes absolute values and looks at the sign of a difference; all three agree
  on doubles and on the rationals they denote (rounding is monotone, and a difference of
  two distinct doubles never rounds to zero). Both zeros are \<open>Fin 0\<close>.
\<close>

datatype num = NaN | NegInf | Fin rat | PosInf

text \<open>The relational operators \<open><\<close> and \<open>>\<close> on Numbers: false as soon as one side is NaN.\<close>

fun num_less :: "num \<Rightarrow> num \<Rightarrow> bool" where
  "num_less NaN _ = False"
| "num_less _ NaN = False"
| "num_less NegInf NegInf = False"
| "num_less NegInf _ = True"
| "num_less (Fin a) (Fin b) = (a < b)"
| "num_less (Fin _) PosInf = True"
| "num_less (Fin _) NegInf = False"
| "num_less PosInf _ = False"

definition num_greater :: "num \<Rightarrow> num \<Rightarrow> bool" where
  "num_greater a b = num_less b a"

text \<open>\<open>a <= b\<close> on Numbers, used to state sortedness.\<close>

definition num_le :: "num \<Rightarrow> num \<Rightarrow> bool" where
  "num_le a b = (a \<noteq> NaN \<and> b \<noteq> NaN \<and> \<not> num_less b a)"

text \<open>\<open>Math.abs\<close> and binary minus.\<close>

fun num_abs :: "num \<Rightarrow> num" where
  "num_abs NaN = NaN"
| "num_abs NegInf = PosInf"
| "num_abs (Fin a) = Fin \<bar>a\<bar>"
| "num_abs PosInf = PosInf"

fun num_sub :: "num \<Rightarrow> num \<Rightarrow> num" where
  "num_sub NaN _ = NaN"
| "num_sub _ NaN = NaN"
| "num_sub (Fin a) (Fin b) = Fin (a - b)"
| "num_sub (Fin _) PosInf = NegInf"
| "num_sub (Fin _) NegInf = PosInf"
| "num_sub PosInf PosInf = NaN"
| "num_sub PosInf _ = PosInf"
| "num_sub NegInf NegInf = NaN"
| "num_sub NegInf _ = NegInf"

text \<open>
  A cell of a parsed row: \<open>parseCSV\<close> stores a Number or, when \<open>isNaN\<close> rejects the
  text, the text itself; a column the row does not have reads as \<open>undefined\<close>.
\<close>

datatype cell = Undefined | Str string | Num num

type_synonym row = "string \<rightharpoonup> cell"

text \<open>
  The detected columns (\<open>detectColumns\<close>): each role holds the first header that
  matched its pattern, or is absent.
\<close>

record columns =
  metabolite :: "string option"
  foldChange :: "string option"
  pValue :: "string option"
  pathway :: "string option"

text \<open>
  \<open>row[col]\<close>: the property key is the column name; an undetected column is the value
  \<open>undefined\<close>, whose property key is the string "undefined".
\<close>

definition prop_key :: "string option \<Rightarrow> string" where
  "prop_key col = (case col of None \<Rightarrow> ''undefined'' | Some h \<Rightarrow> h)"

definition get_cell :: "row \<Rightarrow> string option \<Rightarrow> cell" where
  "get_cell r col = (case r (prop_key col) of None \<Rightarrow> Undefined | Some v \<Rightarrow> v)"

text \<open>Truthiness, and \<open>x || d\<close>.\<close>

fun truthy :: "cell \<Rightarrow> bool" where
  "truthy Undefined = False"
| "truthy (Str s) = (s \<noteq> [])"
| "truthy (Num NaN) = False"
| "truthy (Num (Fin a)) = (a \<noteq> 0)"
| "truthy (Num _) = True"

definition js_or :: "cell \<Rightarrow> cell \<Rightarrow> cell" where
  "js_or x d = (if truthy x then x else d)"

text \<open>
  ToNumber. The conversion of a string is the language's own StringToNumber; it is a
  parameter \<open>s2n\<close> of everything below, so that nothing is assumed about it.
\<close>

fun to_number :: "(string \<Rightarrow> num) \<Rightarrow> cell \<Rightarrow> num" where
  "to_number s2n Undefined = NaN"
| "to_number s2n (Str s) = s2n s"
| "to_number s2n (Num n) = n"

section \<open>The statistical summary (\<open>summarizeData\<close>)\<close>

text \<open>
  The filter of \<open>summarizeData\<close>:
  \<^verbatim>\<open>fc = Math.abs(row[fcCol] || 0); p = row[pCol] || 1; return fc > 0.5 && p < 0.05\<close>
  The constant \<open>0.5\<close> is exact. The constant \<open>0.05\<close> is the double next above 1/20, and no
  double lies between the two, so for the value \<open>p\<close> of a cell the test \<open>p < 0.05\<close> is the
  test \<open>p < 1/20\<close>.
\<close>

definition is_significant :: "(string \<Rightarrow> num) \<Rightarrow> columns \<Rightarrow> row \<Rightarrow> bool" where
  "is_significant s2n cols r =
     (let fc = num_abs (to_number s2n (js_or (get_cell r (foldChange cols)) (Num (Fin 0))));
          p = js_or (get_cell r (pValue cols)) (Num (Fin 1))
      in num_greater fc (Fin (1/2)) \<and> num_less (to_number s2n p) (Fin (1/20)))"

text \<open>The same test, written out a second time inside \<open>buildContext\<close>.\<close>

definition context_filter :: "(string \<Rightarrow> num) \<Rightarrow> columns \<Rightarrow> row \<Rightarrow> bool" where
  "context_filter s2n cols r =
     (num_greater (num_abs (to_number s2n (js_or (get_cell r (foldChange cols)) (Num (Fin 0)))))
                  (Fin (1/2))
      \<and> num_less (to_number s2n (js_or (get_cell r (pValue cols)) (Num (Fin 1)))) (Fin (1/20)))"

text \<open>
  The rows listed under "FULL SIGNIFICANT METABOLITES DATA" by \<open>buildContext\<close>:
  \<^verbatim>\<open>data.filter(...).slice(0, 50)\<close>
\<close>

definition context_rows :: "(string \<Rightarrow> num) \<Rightarrow> columns \<Rightarrow> row list \<Rightarrow> row list" where
  "context_rows s2n cols data = take 50 (filter (context_filter s2n cols) data)"

text \<open>
  \<open>Array.prototype.sort\<close> with a comparator is stable; it is modelled by a stable
  insertion sort that moves \<open>x\<close> behind \<open>y\<close> exactly when \<open>cmp x y > 0\<close>. The lists
  that \<open>summarizeData\<close> sorts hold rows that passed \<open>row[fcCol] > 0\<close> or
  \<open>row[fcCol] < 0\<close>; their keys are numbers other than NaN, on which the comparator is a
  consistent order and the sorted result is determined.
\<close>

fun insert_by :: "('a \<Rightarrow> 'a \<Rightarrow> num) \<Rightarrow> 'a \<Rightarrow> 'a list \<Rightarrow> 'a list" where
  "insert_by cmp x [] = [x]"
| "insert_by cmp x (y # ys) =
     (if num_greater (cmp x y) (Fin 0) then y # insert_by cmp x ys else x # y # ys)"

definition sort_by :: "('a \<Rightarrow> 'a \<Rightarrow> num) \<Rightarrow> 'a list \<Rightarrow> 'a list" where
  "sort_by cmp xs = foldr (insert_by cmp) xs []"

definition fc_value :: "(string \<Rightarrow> num) \<Rightarrow> columns \<Rightarrow> row \<Rightarrow> num" where
  "fc_value s2n cols r = to_number s2n (get_cell r (foldChange cols))"

record summary =
  total' :: nat
  significant :: nat
  increased :: nat
  decreased :: nat
  topIncreased :: "row list"
  topDecreased :: "row list"
  columns :: columns

text \<open>
  \<open>summarizeData\<close>. An array is never falsy, so \<open>!data\<close> is false for every row list and
  the guard reduces to the length test.
\<close>

definition summarizeData :: "(string \<Rightarrow> num) \<Rightarrow> row list \<Rightarrow> columns \<Rightarrow> summary option" where
  "summarizeData s2n data cols =
     (if length data = 0 then None
      else
        let significant_rows = filter (is_significant s2n cols) data;
            increased_rows = filter (\<lambda>r. num_greater (fc_value s2n cols r) (Fin 0)) significant_rows;
            decreased_rows = filter (\<lambda>r. num_less (fc_value s2n cols r) (Fin 0)) significant_rows;
            top_inc = take 10 (sort_by (\<lambda>a b. num_sub (fc_value s2n cols b) (fc_value s2n cols a))
                                       increased_rows);
            top_dec = take 10 (sort_by (\<lambda>a b. num_sub (fc_value s2n cols a) (fc_value s2n cols b))
                                       decreased_rows)
        in Some \<lparr> total' = length data,
                  significant = length significant_rows,
                  increased = length increased_rows,
                  decreased = length decreased_rows,
                  topIncreased = top_inc,
                  topDecreased = top_dec,
                  columns = cols \<rparr>)"

section \<open>Tabular ingest (\<open>parseCSV\<close>)\<close>

text \<open>The exceptions the modelled code can raise.\<close>

datatype exn = SyntaxError | TypeError

text \<open>
  Strings are lists of 8-bit characters. \<open>is_space\<close> is the white space of
  \<open>String.prototype.trim\<close> and of the regular expression class \<open>\s\<close> in that range.
\<close>

definition is_space :: "char \<Rightarrow> bool" where
  "is_space c = ((of_char c :: nat) \<in> {0x09, 0x0A, 0x0B, 0x0C, 0x0D, 0x20, 0xA0})"

definition trim :: "string \<Rightarrow> string" where
  "trim s = rev (dropWhile is_space (rev (dropWhile is_space s)))"

text \<open>\<open>s.split(sep)\<close> for a one-character separator: never the empty array.\<close>

fun split_on :: "char \<Rightarrow> string \<Rightarrow> string list" where
  "split_on sep [] = [[]]"
| "split_on sep (c # cs) =
     (if c = sep then [] # split_on sep cs
      else (case split_on sep cs of [] \<Rightarrow> [[c]] | w # ws \<Rightarrow> (c # w) # ws))"

definition dq :: char where
  "dq = CHR 0x22"

text \<open>\<open>v.trim().replace(/"/g, '')\<close>\<close>

definition clean_field :: "string \<Rightarrow> string" where
  "clean_field v = filter (\<lambda>c. c \<noteq> dq) (trim v)"

text \<open>\<open>values[i]\<close>: \<open>undefined\<close> beyond the end of the array.\<close>

definition nth_opt :: "'a list \<Rightarrow> nat \<Rightarrow> 'a option" where
  "nth_opt xs i = (if i < length xs then Some (xs ! i) else None)"

text \<open>
  \<open>isNaN(values[i]) ? values[i] : parseFloat(values[i])\<close>. The global \<open>isNaN\<close> applies
  ToNumber, that is \<open>s2n\<close> on a string, and \<open>isNaN(undefined)\<close> is true; \<open>parseFloat\<close>
  is the second parameter \<open>pf\<close>.
\<close>

definition parse_cell :: "(string \<Rightarrow> num) \<Rightarrow> (string \<Rightarrow> num) \<Rightarrow> string option \<Rightarrow> cell" where
  "parse_cell s2n pf v =
     (case v of
        None \<Rightarrow> Undefined
      | Some s \<Rightarrow> if s2n s = NaN then Str s else Num (pf s))"

text \<open>\<open>headers.forEach((h, i) => { row[h] = ... })\<close>: a later duplicate header overwrites.\<close>

definition make_row ::
  "(string \<Rightarrow> num) \<Rightarrow> (string \<Rightarrow> num) \<Rightarrow> string list \<Rightarrow> string list \<Rightarrow> row" where
  "make_row s2n pf hs vals =
     fold (\<lambda>(i, h) r. r(h \<mapsto> parse_cell s2n pf (nth_opt vals i))) (zip [0..<length hs] hs) Map.empty"

text \<open>
  \<open>parseCSV\<close>. \<open>lines[0]\<close> of an empty array would be \<open>undefined\<close> and the call
  \<open>.split\<close> on it a TypeError; that is the only statement of the function that can raise. The result
  \<open>{ headers, data }\<close> is the pair of the two.
\<close>

definition parseCSV ::
  "(string \<Rightarrow> num) \<Rightarrow> (string \<Rightarrow> num) \<Rightarrow> string \<Rightarrow> exn + string list \<times> row list" where
  "parseCSV s2n pf text =
     (let lines = split_on CHR 0x0A (trim text)
      in case lines of
           [] \<Rightarrow> Inl TypeError
         | l0 # rest \<Rightarrow>
             (let hs = map clean_field (split_on CHR '','' l0);
                  rows = map (\<lambda>line. make_row s2n pf hs (map clean_field (split_on CHR '','' line)))
                             rest
              in Inr (hs, rows)))"

section \<open>JSON values and the strict parser (\<open>JSON.parse\<close>)\<close>

text \<open>
  The content of a JSON string is a list of UTF-16 code units, since \<open>\uXXXX\<close> can
  name any of them; \<open>lit\<close> turns a literal of the theory into such a list. A number is
  the exact value of its decimal literal. An object keeps its members in the order of
  their first occurrence, a repeated key replacing the earlier value (the engine lists
  integer-like keys first; nothing below depends on the order of the members).
\<close>

type_synonym jstr = "nat list"

definition lit :: "string \<Rightarrow> jstr" where
  "lit s = map of_char s"

datatype json = JNull | JBool bool | JNumber rat | JString jstr
  | JArray "json list" | JObject "(jstr \<times> json) list"

definition is_json_ws :: "char \<Rightarrow> bool" where
  "is_json_ws c = (c = CHR '' '' \<or> c = CHR 0x09 \<or> c = CHR 0x0A \<or> c = CHR 0x0D)"

definition skip_ws :: "string \<Rightarrow> string" where
  "skip_ws s = dropWhile is_json_ws s"

definition is_digit :: "char \<Rightarrow> bool" where
  "is_digit c = (48 \<le> (of_char c :: nat) \<and> (of_char c :: nat) \<le> 57)"

definition digit_val :: "char \<Rightarrow> nat" where
  "digit_val c = of_char c - 48"

definition nat_of_digits :: "string \<Rightarrow> nat" where
  "nat_of_digits ds = foldl (\<lambda>a c. 10 * a + digit_val c) 0 ds"

subsection \<open>Strings\<close>

definition hex_val :: "char \<Rightarrow> nat option" where
  "hex_val c =
     (if is_digit c then Some (of_char c - 48)
      else if 97 \<le> (of_char c :: nat) \<and> (of_char c :: nat) \<le> 102 then Some (of_char c - 87)
      else if 65 \<le> (of_char c :: nat) \<and> (of_char c :: nat) \<le> 70 then Some (of_char c - 55)
      else None)"

definition hex4 :: "string \<Rightarrow> nat option" where
  "hex4 s =
     (case map hex_val (take 4 s) of
        [Some a, Some b, Some c, Some d] \<Rightarrow> Some (((a * 16 + b) * 16 + c) * 16 + d)
      | _ \<Rightarrow> None)"

definition escape_char :: "char \<Rightarrow> nat option" where
  "escape_char e =
     (if e = CHR 0x22 then Some 0x22
      else if e = CHR 0x5C then Some 0x5C
      else if e = CHR ''/'' then Some 0x2F
      else if e = CHR ''b'' then Some 0x08
      else if e = CHR ''f'' then Some 0x0C
      else if e = CHR ''n'' then Some 0x0A
      else if e = CHR ''r'' then Some 0x0D
      else if e = CHR ''t'' then Some 0x09
      else None)"

text \<open>
  The characters of a string after its opening quote, up to the closing quote: escapes
  are decoded, a raw control character is an error, and so is the end of the input.
\<close>

fun parse_string_chars :: "string \<Rightarrow> jstr \<Rightarrow> (jstr \<times> string) option" where
  "parse_string_chars [] acc = None"
| "parse_string_chars (c # cs) acc =
     (if c = CHR 0x22 then Some (rev acc, cs)
      else if c = CHR 0x5C then
        (case cs of
           [] \<Rightarrow> None
         | e # r \<Rightarrow>
             if e = CHR ''u'' then
               (case hex4 r of
                  Some n \<Rightarrow> parse_string_chars (drop 4 r) (n # acc)
                | None \<Rightarrow> None)
             else
               (case escape_char e of
                  Some n \<Rightarrow> parse_string_chars r (n # acc)
                | None \<Rightarrow> None))
      else if (of_char c :: nat) < 0x20 then None
      else parse_string_chars cs (of_char c # acc))"

subsection \<open>Numbers and literals\<close>

text \<open>
  \<open>number = [ - ] int [ frac ] [ exp ]\<close>, one definition for each part. A part that
  is present but malformed (a leading zero followed by a digit, a point or an exponent
  mark without digits) makes the whole text invalid, since after a number only white
  space, a comma or a closing bracket may follow.
\<close>

definition sign_part :: "string \<Rightarrow> bool \<times> string" where
  "sign_part s =
     (case s of
        [] \<Rightarrow> (False, s)
      | c # r \<Rightarrow> if c = CHR ''-'' then (True, r) else (False, s))"

definition int_part :: "string \<Rightarrow> (nat \<times> string) option" where
  "int_part s =
     (let ds = takeWhile is_digit s
      in if ds = [] \<or> (hd ds = CHR ''0'' \<and> length ds > 1) then None
         else Some (nat_of_digits ds, dropWhile is_digit s))"

definition frac_part :: "string \<Rightarrow> (rat \<times> string) option" where
  "frac_part s =
     (case s of
        [] \<Rightarrow> Some (0, s)
      | c # r \<Rightarrow>
          if c = CHR ''.'' then
            (let ds = takeWhile is_digit r
             in if ds = [] then None
                else Some (of_nat (nat_of_digits ds) / 10 ^ length ds, dropWhile is_digit r))
          else Some (0, s))"

definition exp_sign :: "string \<Rightarrow> bool \<times> string" where
  "exp_sign s =
     (case s of
        [] \<Rightarrow> (False, s)
      | c # r \<Rightarrow>
          if c = CHR ''-'' then (True, r) else if c = CHR ''+'' then (False, r) else (False, s))"

definition exp_part :: "string \<Rightarrow> (int \<times> string) option" where
  "exp_part s =
     (case s of
        [] \<Rightarrow> Some (0, s)
      | c # r \<Rightarrow>
          if c = CHR ''e'' \<or> c = CHR ''E'' then
            (case exp_sign r of
               (neg, r1) \<Rightarrow>
                 (let ds = takeWhile is_digit r1
                  in if ds = [] then None
                     else Some (if neg then - int (nat_of_digits ds) else int (nat_of_digits ds),
                                dropWhile is_digit r1)))
          else Some (0, s))"

definition pow10 :: "int \<Rightarrow> rat" where
  "pow10 e = (if 0 \<le> e then 10 ^ nat e else 1 / 10 ^ nat (- e))"

definition parse_number :: "string \<Rightarrow> (rat \<times> string) option" where
  "parse_number s =
     (case sign_part s of
        (neg, s1) \<Rightarrow>
          (case int_part s1 of
             None \<Rightarrow> None
           | Some (ip, s2) \<Rightarrow>
               (case frac_part s2 of
                  None \<Rightarrow> None
                | Some (fp, s3) \<Rightarrow>
                    (case exp_part s3 of
                       None \<Rightarrow> None
                     | Some (e, s4) \<Rightarrow>
                         Some ((if neg then - 1 else 1) * (of_nat ip + fp) * pow10 e, s4)))))"

definition parse_scalar :: "string \<Rightarrow> (json \<times> string) option" where
  "parse_scalar s =
     (if take 4 s = ''true'' then Some (JBool True, drop 4 s)
      else if take 5 s = ''false'' then Some (JBool False, drop 5 s)
      else if take 4 s = ''null'' then Some (JNull, drop 4 s)
      else map_option (\<lambda>(q, r). (JNumber q, r)) (parse_number s))"

subsection \<open>Arrays and objects\<close>

fun obj_put :: "(jstr \<times> json) list \<Rightarrow> jstr \<Rightarrow> json \<Rightarrow> (jstr \<times> json) list" where
  "obj_put [] k v = [(k, v)]"
| "obj_put ((k', v') # ms) k v = (if k' = k then (k, v) # ms else (k', v') # obj_put ms k v)"

text \<open>
  The grammar is read by a pushdown machine. A frame is an array or an object that is
  still open: the elements read so far (latest first), or the members read so far and
  the key whose value is being read. The machine is about to read a value, about to
  read a key, or has just finished a value.
\<close>

datatype frame = FArr "json list" | FObj "(jstr \<times> json) list" jstr

datatype mode = Value | Key "(jstr \<times> json) list" | After json

datatype step_result = Done "(json \<times> string) option" | Next mode "frame list" string

definition value_step :: "frame list \<Rightarrow> string \<Rightarrow> step_result" where
  "value_step st s =
     (case skip_ws s of
        [] \<Rightarrow> Done None
      | c # r \<Rightarrow>
          if c = CHR ''['' then
            (case skip_ws r of
               [] \<Rightarrow> Done None
             | d # r' \<Rightarrow> if d = CHR '']'' then Next (After (JArray [])) st r'
                         else Next Value (FArr [] # st) r)
          else if c = CHR ''{'' then
            (case skip_ws r of
               [] \<Rightarrow> Done None
             | d # r' \<Rightarrow> if d = CHR ''}'' then Next (After (JObject [])) st r'
                         else Next (Key []) st r)
          else if c = CHR 0x22 then
            (case parse_string_chars r [] of
               None \<Rightarrow> Done None
             | Some (str, r') \<Rightarrow> Next (After (JString str)) st r')
          else
            (case parse_scalar (c # r) of
               None \<Rightarrow> Done None
             | Some (v, r') \<Rightarrow> Next (After v) st r'))"

definition key_step :: "(jstr \<times> json) list \<Rightarrow> frame list \<Rightarrow> string \<Rightarrow> step_result" where
  "key_step ms st s =
     (case skip_ws s of
        [] \<Rightarrow> Done None
      | c # r \<Rightarrow>
          if c = CHR 0x22 then
            (case parse_string_chars r [] of
               None \<Rightarrow> Done None
             | Some (k, r') \<Rightarrow>
                 (case skip_ws r' of
                    [] \<Rightarrow> Done None
                  | d # r'' \<Rightarrow> if d = CHR '':'' then Next Value (FObj ms k # st) r''
                               else Done None))
          else Done None)"

definition after_step :: "json \<Rightarrow> frame list \<Rightarrow> string \<Rightarrow> step_result" where
  "after_step v st s =
     (case st of
        [] \<Rightarrow> Done (Some (v, s))
      | FArr acc # st' \<Rightarrow>
          (case skip_ws s of
             [] \<Rightarrow> Done None
           | c # r \<Rightarrow>
               if c = CHR '','' then Next Value (FArr (v # acc) # st') r
               else if c = CHR '']'' then Next (After (JArray (rev (v # acc)))) st' r
               else Done None)
      | FObj ms k # st' \<Rightarrow>
          (case skip_ws s of
             [] \<Rightarrow> Done None
           | c # r \<Rightarrow>
               if c = CHR '','' then Next (Key (obj_put ms k v)) st' r
               else if c = CHR ''}'' then Next (After (JObject (obj_put ms k v))) st' r
               else Done None))"

definition step :: "mode \<Rightarrow> frame list \<Rightarrow> string \<Rightarrow> step_result" where
  "step m st s =
     (case m of
        Value \<Rightarrow> value_step st s
      | Key ms \<Rightarrow> key_step ms st s
      | After v \<Rightarrow> after_step v st s)"

subsection \<open>Every step consumes input\<close>

lemma length_skip_ws: "skip_ws s = c # r \<Longrightarrow> length r < length s"
proof -
  assume a: "skip_ws s = c # r"
  have "length (skip_ws s) \<le> length s" by (simp add: skip_ws_def length_dropWhile_le)
  with a show ?thesis by simp
qed

lemma length_parse_string_chars:
  "parse_string_chars s acc = Some (k, r) \<Longrightarrow> length r < length s"
proof (induction s acc rule: parse_string_chars.induct)
  case (1 acc) then show ?case by simp
next
  case (2 c cs acc)
  show ?case
  proof (cases "c = CHR 0x22")
    case True
    with "2.prems" show ?thesis by simp
  next
    case nq: False
    show ?thesis
    proof (cases "c = CHR 0x5C")
      case bs: True
      show ?thesis
      proof (cases cs)
        case Nil
        with "2.prems" nq bs show ?thesis by simp
      next
        case (Cons e t)
        show ?thesis
        proof (cases "e = CHR ''u''")
          case u: True
          then obtain n where h: "hex4 t = Some n"
            and p: "parse_string_chars (drop 4 t) (n # acc) = Some (k, r)"
            using "2.prems" nq bs Cons by (auto split: option.splits)
          from "2.IH"(1)[OF nq bs Cons u h p] have "length r < length (drop 4 t)" .
          then show ?thesis using Cons by simp
        next
          case nu: False
          then obtain n where h: "escape_char e = Some n"
            and p: "parse_string_chars t (n # acc) = Some (k, r)"
            using "2.prems" nq bs Cons by (auto split: option.splits)
          from "2.IH"(2)[OF nq bs Cons nu h p] have "length r < length t" .
          then show ?thesis using Cons by simp
        qed
      qed
    next
      case nbs: False
      then have ctl: "\<not> (of_char c :: nat) < 0x20"
        and p: "parse_string_chars cs (of_char c # acc) = Some (k, r)"
        using "2.prems" nq by (auto split: if_splits)
      from "2.IH"(3)[OF nq nbs ctl p] have "length r < length cs" .
      then show ?thesis by simp
    qed
  qed
qed

lemma length_sign_part: "sign_part s = (b, r) \<Longrightarrow> length r \<le> length s"
  by (auto simp: sign_part_def split: list.splits if_splits)

lemma length_int_part: "int_part s = Some (n, r) \<Longrightarrow> length r < length s"
proof -
  assume a: "int_part s = Some (n, r)"
  then have ne: "takeWhile is_digit s \<noteq> []" and r: "r = dropWhile is_digit s"
    by (auto simp: int_part_def Let_def split: if_splits)
  have "length (takeWhile is_digit s) + length (dropWhile is_digit s) = length s"
    by (metis length_append takeWhile_dropWhile_id)
  with ne r show ?thesis by (cases "takeWhile is_digit s") auto
qed

lemma length_frac_part: "frac_part s = Some (q, r) \<Longrightarrow> length r \<le> length s"
  by (auto simp: frac_part_def Let_def split: list.splits if_splits
      intro: le_SucI length_dropWhile_le)

lemma length_exp_sign: "exp_sign s = (b, r) \<Longrightarrow> length r \<le> length s"
  by (auto simp: exp_sign_def split: list.splits if_splits)

lemma length_exp_part: "exp_part s = Some (e, r) \<Longrightarrow> length r \<le> length s"
proof (cases s)
  case Nil
  assume "exp_part s = Some (e, r)"
  with Nil show ?thesis by (simp add: exp_part_def)
next
  case (Cons c t)
  assume a: "exp_part s = Some (e, r)"
  show ?thesis
  proof (cases "c = CHR ''e'' \<or> c = CHR ''E''")
    case False
    with a Cons show ?thesis by (auto simp: exp_part_def)
  next
    case True
    obtain neg r1 where es: "exp_sign t = (neg, r1)" by (cases "exp_sign t")
    with a Cons True have "r = dropWhile is_digit r1"
      by (auto simp: exp_part_def Let_def split: if_splits)
    then have "length r \<le> length r1" by (simp add: length_dropWhile_le)
    also have "\<dots> \<le> length t" using es by (rule length_exp_sign)
    finally show ?thesis using Cons by simp
  qed
qed

lemma length_parse_number:
  assumes "parse_number s = Some (q, r)"
  shows "length r < length s"
proof -
  obtain neg s1 where sp: "sign_part s = (neg, s1)" by (cases "sign_part s")
  from assms sp obtain ip s2 where ip: "int_part s1 = Some (ip, s2)"
    by (auto simp: parse_number_def split: option.splits)
  from assms sp ip obtain fp s3 where fp: "frac_part s2 = Some (fp, s3)"
    by (auto simp: parse_number_def split: option.splits)
  from assms sp ip fp obtain e where ep: "exp_part s3 = Some (e, r)"
    by (auto simp: parse_number_def split: option.splits)
  have "length r \<le> length s3" using ep by (rule length_exp_part)
  also have "\<dots> \<le> length s2" using fp by (rule length_frac_part)
  also have "\<dots> < length s1" using ip by (rule length_int_part)
  also have "\<dots> \<le> length s" using sp by (rule length_sign_part)
  finally show ?thesis .
qed

lemma drop_shorter: "take n s = w \<Longrightarrow> w \<noteq> [] \<Longrightarrow> length (drop n s) < length s"
  by (cases n; cases s) auto

lemma length_parse_scalar: "parse_scalar s = Some (v, r) \<Longrightarrow> length r < length s"
  unfolding parse_scalar_def
  by (auto split: if_splits dest: length_parse_number dest!: drop_shorter simp del: length_drop)

lemma value_step_decreases: "value_step st s = Next m' st' s' \<Longrightarrow> length s' < length s"
  unfolding value_step_def
  by (auto split: list.splits if_splits option.splits
      dest!: length_skip_ws length_parse_string_chars length_parse_scalar)

lemma key_step_decreases: "key_step ms st s = Next m' st' s' \<Longrightarrow> length s' < length s"
  unfolding key_step_def
  by (auto split: list.splits if_splits option.splits
      dest!: length_skip_ws length_parse_string_chars)

lemma after_step_decreases: "after_step v st s = Next m' st' s' \<Longrightarrow> length s' < length s"
  unfolding after_step_def
  by (auto split: list.splits if_splits frame.splits dest!: length_skip_ws)

lemma step_decreases: "step m st s = Next m' st' s' \<Longrightarrow> length s' < length s"
  unfolding step_def
  by (auto split: mode.splits
      dest: value_step_decreases key_step_decreases after_step_decreases)

subsection \<open>The parser\<close>

function run :: "mode \<Rightarrow> frame list \<Rightarrow> string \<Rightarrow> (json \<times> string) option" where
  "run m st s = (case step m st s of Done r \<Rightarrow> r | Next m' st' s' \<Rightarrow> run m' st' s')"
  by pat_completeness auto
termination
proof (relation "measure (\<lambda>(m, st, s). length s)")
  show "wf (measure (\<lambda>(m, st, s). length s))" by simp
next
  fix m st s m' st' s'
  assume "step m st s = Next m' st' s'"
  then have "length s' < length s" by (rule step_decreases)
  then show "((m', st', s'), m, st, s) \<in> measure (\<lambda>(m, st, s). length s)" by simp
qed

declare run.simps [simp del]

text \<open>
  \<open>JSON.parse\<close>: one value, with nothing but white space after it; anything else is a
  SyntaxError.
\<close>

definition JSON_parse :: "string \<Rightarrow> exn + json" where
  "JSON_parse s =
     (case run Value [] s of
        None \<Rightarrow> Inl SyntaxError
      | Some (v, rest) \<Rightarrow> if skip_ws rest = [] then Inr v else Inl SyntaxError)"

section \<open>Regular expressions\<close>

text \<open>
  Every pattern of \<open>parseJSONSafely\<close> is a sequence of single characters, starred
  character classes and the end anchor. \<open>rx_here\<close> is the backtracking matcher at a fixed
  start: a star is greedy, it takes a character and gives it back only when the rest of
  the pattern fails. \<open>rx_search\<close> tries the start positions from the left, as \<open>match\<close>
  and a non-global \<open>replace\<close> do, and returns the text before the match, the match and
  the text after it.
\<close>

datatype atom = One "char \<Rightarrow> bool" | Many "char \<Rightarrow> bool" | Eoi

fun rx_here :: "atom list \<Rightarrow> string \<Rightarrow> string option" where
  "rx_here [] s = Some []"
| "rx_here (Eoi # as) s = (if s = [] then rx_here as s else None)"
| "rx_here (One p # as) [] = None"
| "rx_here (One p # as) (c # cs) =
     (if p c then map_option ((#) c) (rx_here as cs) else None)"
| "rx_here (Many p # as) [] = rx_here as []"
| "rx_here (Many p # as) (c # cs) =
     (case (if p c then rx_here (Many p # as) cs else None) of
        Some m \<Rightarrow> Some (c # m)
      | None \<Rightarrow> rx_here as (c # cs))"

fun rx_search :: "atom list \<Rightarrow> string \<Rightarrow> (string \<times> string \<times> string) option" where
  "rx_search rx [] = (case rx_here rx [] of Some m \<Rightarrow> Some ([], m, []) | None \<Rightarrow> None)"
| "rx_search rx (c # cs) =
     (case rx_here rx (c # cs) of
        Some m \<Rightarrow> Some ([], m, drop (length m) (c # cs))
      | None \<Rightarrow>
          (case rx_search rx cs of
             Some (b, m, a) \<Rightarrow> Some (c # b, m, a)
           | None \<Rightarrow> None))"

text \<open>\<open>s.match(rx)?.[0]\<close> and \<open>s.replace(rx, rep)\<close> for a pattern without the global flag.\<close>

definition js_match :: "atom list \<Rightarrow> string \<Rightarrow> string option" where
  "js_match rx s = (case rx_search rx s of Some (b, m, a) \<Rightarrow> Some m | None \<Rightarrow> None)"

definition js_replace :: "atom list \<Rightarrow> string \<Rightarrow> string \<Rightarrow> string" where
  "js_replace rx rep s = (case rx_search rx s of Some (b, m, a) \<Rightarrow> b @ rep @ a | None \<Rightarrow> s)"

definition chr :: "char \<Rightarrow> atom" where
  "chr c = One (\<lambda>x. x = c)"

definition any_star :: atom where
  "any_star = Many (\<lambda>x. True)"

definition ws_star :: atom where
  "ws_star = Many is_space"

definition not_star :: "char \<Rightarrow> atom" where
  "not_star c = Many (\<lambda>x. x \<noteq> c)"

text \<open>\<^verbatim>\<open>/\[[\s\S]*\]/\<close> and \<^verbatim>\<open>/\{[\s\S]*\}/\<close>\<close>

definition rx_array :: "atom list" where
  "rx_array = [chr CHR ''['', any_star, chr CHR '']'']"

definition rx_object :: "atom list" where
  "rx_object = [chr CHR ''{'', any_star, chr CHR ''}'']"

text \<open>\<^verbatim>\<open>/\[[\s\S]*/\<close> and \<^verbatim>\<open>/\{[\s\S]*/\<close>\<close>

definition rx_array_open :: "atom list" where
  "rx_array_open = [chr CHR ''['', any_star]"

definition rx_object_open :: "atom list" where
  "rx_object_open = [chr CHR ''{'', any_star]"

text \<open>\<^verbatim>\<open>/,\s*"[^"]*$/\<close>\<close>

definition rx_trim1 :: "atom list" where
  "rx_trim1 = [chr CHR '','', ws_star, chr dq, not_star dq, Eoi]"

text \<open>\<^verbatim>\<open>/,\s*"[^"]*":\s*"[^"]*$/\<close>\<close>

definition rx_trim2 :: "atom list" where
  "rx_trim2 = [chr CHR '','', ws_star, chr dq, not_star dq, chr dq, chr CHR '':'', ws_star,
               chr dq, not_star dq, Eoi]"

text \<open>\<^verbatim>\<open>/,\s*"[^"]*":\s*\[[^\]]*$/\<close>\<close>

definition rx_trim3 :: "atom list" where
  "rx_trim3 = [chr CHR '','', ws_star, chr dq, not_star dq, chr dq, chr CHR '':'', ws_star,
               chr CHR ''['', not_star CHR '']'', Eoi]"

text \<open>\<^verbatim>\<open>/,\s*"[^"]*":\s*$/\<close>\<close>

definition rx_trim4 :: "atom list" where
  "rx_trim4 = [chr CHR '','', ws_star, chr dq, not_star dq, chr dq, chr CHR '':'', ws_star, Eoi]"

text \<open>\<^verbatim>\<open>/,\s*$/\<close>\<close>

definition rx_trim5 :: "atom list" where
  "rx_trim5 = [chr CHR '','', ws_star, Eoi]"

text \<open>\<^verbatim>\<open>/,\s*\{[^}]*$/\<close>\<close>

definition rx_trim6 :: "atom list" where
  "rx_trim6 = [chr CHR '','', ws_star, chr CHR ''{'', not_star CHR ''}'', Eoi]"

section \<open>The resilient extractor (\<open>parseJSONSafely\<close>)\<close>

text \<open>The six \<open>replace\<close> calls that cut incomplete content off the end, in the source's order.\<close>

definition trim_tail :: "string \<Rightarrow> string" where
  "trim_tail s0 =
     (let s1 = js_replace rx_trim1 [] s0;
          s2 = js_replace rx_trim2 [] s1;
          s3 = js_replace rx_trim3 [] s2;
          s4 = js_replace rx_trim4 [] s3;
          s5 = js_replace rx_trim5 [] s4
      in js_replace rx_trim6 [] s5)"

text \<open>The counting loop: brackets and braces outside string literals.\<close>

record counter =
  inString :: bool
  escape :: bool
  brackets :: int
  braces :: int

definition count_step :: "counter \<Rightarrow> char \<Rightarrow> counter" where
  "count_step k c =
     (if escape k then k\<lparr>escape := False\<rparr>
      else if c = CHR 0x5C then k\<lparr>escape := True\<rparr>
      else if c = dq then k\<lparr>inString := \<not> inString k\<rparr>
      else if \<not> inString k then
        (if c = CHR ''['' then k\<lparr>brackets := brackets k + 1\<rparr>
         else if c = CHR '']'' then k\<lparr>brackets := brackets k - 1\<rparr>
         else if c = CHR ''{'' then k\<lparr>braces := braces k + 1\<rparr>
         else if c = CHR ''}'' then k\<lparr>braces := braces k - 1\<rparr>
         else k)
      else k)"

definition count_open :: "string \<Rightarrow> counter" where
  "count_open s =
     foldl count_step \<lparr>inString = False, escape = False, brackets = 0, braces = 0\<rparr> s"

text \<open>"Close any open structures": first the braces, then the brackets.\<close>

definition close_open :: "string \<Rightarrow> string" where
  "close_open s =
     (let k = count_open s
      in s @ replicate (nat (braces k)) CHR ''}'' @ replicate (nat (brackets k)) CHR '']'')"

text \<open>\<open>s.lastIndexOf(pat)\<close>, \<open>-1\<close> when \<open>pat\<close> does not occur, and \<open>s.substring(a, b)\<close>.\<close>

fun last_index_from :: "string \<Rightarrow> string \<Rightarrow> int \<Rightarrow> int \<Rightarrow> int" where
  "last_index_from pat [] i best = (if pat = [] then i else best)"
| "last_index_from pat (c # cs) i best =
     last_index_from pat cs (i + 1) (if take (length pat) (c # cs) = pat then i else best)"

definition lastIndexOf :: "string \<Rightarrow> string \<Rightarrow> int" where
  "lastIndexOf s pat = last_index_from pat s 0 (- 1)"

definition substring :: "string \<Rightarrow> int \<Rightarrow> int \<Rightarrow> string" where
  "substring s a b =
     (let n = int (length s);
          a' = max 0 (min a n);
          b' = max 0 (min b n);
          lo = min a' b';
          hi = max a' b'
      in take (nat (hi - lo)) (drop (nat lo) s))"

text \<open>
  The blocks of \<open>parseJSONSafely\<close> that stand in a \<open>try\<close>. Each has three outcomes:
  \<open>Inr (Some v)\<close>, the function returns \<open>v\<close>; \<open>Inr None\<close>, the block ends without
  returning; \<open>Inl e\<close>, the block raises \<open>e\<close>, which its \<open>catch\<close> receives.

  First block: \<open>match\<close> from the first opening bracket to the last closing one, and parse.
\<close>

definition direct_parse :: "string \<Rightarrow> bool \<Rightarrow> exn + json option" where
  "direct_parse text isArray =
     (case js_match (if isArray then rx_array else rx_object) text of
        None \<Rightarrow> Inr None
      | Some m \<Rightarrow> (case JSON_parse m of Inl e \<Rightarrow> Inl e | Inr v \<Rightarrow> Inr (Some v)))"

text \<open>"Try removing the last incomplete object from array".\<close>

definition last_complete :: "string \<Rightarrow> exn + json option" where
  "last_complete jsonStr =
     (let lastCompleteIdx = lastIndexOf jsonStr ''},''
      in if lastCompleteIdx > 0 then
           (case JSON_parse (substring jsonStr 0 (lastCompleteIdx + 1) @ '']'') of
              Inl e \<Rightarrow> Inl e
            | Inr v \<Rightarrow> Inr (Some v))
         else Inr None)"

text \<open>
  "Final attempt: extract individual complete objects". The loop counts every brace,
  also one inside a string literal; a span that does not parse is skipped by the inner
  \<open>catch\<close>.
\<close>

fun salvage_loop :: "string \<Rightarrow> string \<Rightarrow> int \<Rightarrow> int \<Rightarrow> int \<Rightarrow> json list \<Rightarrow> json list" where
  "salvage_loop jsonStr [] i depth start objects = objects"
| "salvage_loop jsonStr (c # cs) i depth start objects =
     (let start1 = (if c = CHR ''{'' \<and> depth = 0 then i else start);
          depth1 = (if c = CHR ''{'' then depth + 1 else depth);
          depth2 = (if c = CHR ''}'' then depth1 - 1 else depth1)
      in if c = CHR ''}'' \<and> depth2 = 0 \<and> start1 \<noteq> - 1 then
           salvage_loop jsonStr cs (i + 1) depth2 (- 1)
             (case JSON_parse (substring jsonStr start1 (i + 1)) of
                Inl e3 \<Rightarrow> objects
              | Inr v \<Rightarrow> objects @ [v])
         else salvage_loop jsonStr cs (i + 1) depth2 start1 objects)"

definition salvage :: "string \<Rightarrow> exn + json option" where
  "salvage jsonStr =
     (let objects = salvage_loop jsonStr jsonStr 0 0 (- 1) []
      in if length objects > 0 then Inr (Some (JArray objects)) else Inr None)"

text \<open>
  The repaired text: from the first opening bracket to the end of the input, the tail
  trimmed and the open structures closed. \<open>None\<close> when there is no opening bracket
  (\<open>if (!jsonStr) return null\<close>).
\<close>

definition repaired :: "string \<Rightarrow> bool \<Rightarrow> string option" where
  "repaired text isArray =
     (case js_match (if isArray then rx_array_open else rx_object_open) text of
        None \<Rightarrow> None
      | Some jsonStr \<Rightarrow> if jsonStr = [] then None else Some (close_open (trim_tail jsonStr)))"

text \<open>
  \<open>parseJSONSafely\<close>: the result is \<open>Inr None\<close> for \<open>null\<close>, \<open>Inr (Some v)\<close> for a
  value, and \<open>Inl e\<close> if the call itself raised \<open>e\<close>. An exception of a \<open>try\<close> block
  is the \<open>Inl\<close> branch of the \<open>case\<close> on that block, which goes on as the \<open>catch\<close> does.
\<close>

definition parseJSONSafely :: "string \<Rightarrow> bool \<Rightarrow> exn + json option" where
  "parseJSONSafely text isArray =
     (if text = [] then Inr None
      else
        case direct_parse text isArray of
          Inr (Some v) \<Rightarrow> Inr (Some v)
        | _ \<Rightarrow>
            (case repaired text isArray of
               None \<Rightarrow> Inr None
             | Some jsonStr \<Rightarrow>
                 (case JSON_parse jsonStr of
                    Inr v \<Rightarrow> Inr (Some v)
                  | Inl e \<Rightarrow>
                      (case (if isArray then last_complete jsonStr else Inr None) of
                         Inr (Some v) \<Rightarrow> Inr (Some v)
                       | _ \<Rightarrow>
                           (case (if isArray then salvage jsonStr else Inr None) of
                              Inr (Some v) \<Rightarrow> Inr (Some v)
                            | _ \<Rightarrow> Inr None)))))"

text \<open>
  What each block of \<open>parseJSONSafely\<close> yields on its own, whatever the others do: the
  direct match, the parse of the repaired text, the cut at the last \<open>},\<close> and the
  salvage of single objects by the loop above (the last two for an array only).
\<close>

definition yield :: "exn + json option \<Rightarrow> json option" where
  "yield r = (case r of Inr (Some v) \<Rightarrow> Some v | _ \<Rightarrow> None)"

definition direct_match :: "string \<Rightarrow> bool \<Rightarrow> json option" where
  "direct_match text isArray = yield (direct_parse text isArray)"

definition truncation_repair :: "string \<Rightarrow> bool \<Rightarrow> json option" where
  "truncation_repair text isArray =
     (case repaired text isArray of
        None \<Rightarrow> None
      | Some jsonStr \<Rightarrow> (case JSON_parse jsonStr of Inl e \<Rightarrow> None | Inr v \<Rightarrow> Some v))"

definition last_complete_element :: "string \<Rightarrow> bool \<Rightarrow> json option" where
  "last_complete_element text isArray =
     (case repaired text isArray of
        None \<Rightarrow> None
      | Some jsonStr \<Rightarrow> if isArray then yield (last_complete jsonStr) else None)"

definition object_salvage :: "string \<Rightarrow> bool \<Rightarrow> json option" where
  "object_salvage text isArray =
     (case repaired text isArray of
        None \<Rightarrow> None
      | Some jsonStr \<Rightarrow> if isArray then yield (salvage jsonStr) else None)"

subsection \<open>Per-element salvage as the specification words it\<close>

text \<open>
  Section 4.4, step 4 of the specification, in its own words: the repaired text is
  scanned again "with the same string-literal-aware brace counter", the span of every
  top-level object whose depth returns to zero is recorded and parsed on its own, a span
  that does not parse is skipped, and the result is the sequence of the parsed objects
  if it is not empty, else \<open>null\<close>. The counter is \<open>count_step\<close>, the one of the repair;
  \<open>span_start\<close> is \<open>-1\<close> while no object is open.
\<close>

record scan =
  tally :: counter
  position :: int
  span_start :: int
  found :: "json list"

definition spec_salvage_step :: "string \<Rightarrow> scan \<Rightarrow> char \<Rightarrow> scan" where
  "spec_salvage_step jsonStr sc c =
     (let k = tally sc;
          k' = count_step k c;
          i = position sc
      in if braces k = 0 \<and> braces k' = 1 then
           sc\<lparr>tally := k', position := i + 1, span_start := i\<rparr>
         else if braces k = 1 \<and> braces k' = 0 \<and> span_start sc \<noteq> - 1 then
           sc\<lparr>tally := k', position := i + 1, span_start := - 1,
              found := (case JSON_parse (substring jsonStr (span_start sc) (i + 1)) of
                          Inl e \<Rightarrow> found sc
                        | Inr v \<Rightarrow> found sc @ [v])\<rparr>
         else sc\<lparr>tally := k', position := i + 1\<rparr>)"

definition spec_salvage :: "string \<Rightarrow> json option" where
  "spec_salvage jsonStr =
     (let sc = foldl (spec_salvage_step jsonStr)
                 \<lparr>tally = \<lparr>inString = False, escape = False, brackets = 0, braces = 0\<rparr>,
                  position = 0, span_start = - 1, found = []\<rparr> jsonStr
      in if found sc = [] then None else Some (JArray (found sc)))"

definition spec_per_element_salvage :: "string \<Rightarrow> bool \<Rightarrow> json option" where
  "spec_per_element_salvage text isArray =
     (case repaired text isArray of
        None \<Rightarrow> None
      | Some jsonStr \<Rightarrow> if isArray then spec_salvage jsonStr else None)"
section \<open>The three workflows\<close>

text \<open>
  The component state that the workflows read and write. \<open>selectedType\<close> is one of the
  six ids of \<open>HYPOTHESIS_TYPES\<close> or \<open>null\<close>. An error message is either a string of
  the program or the engine's message of a raised exception.
\<close>

datatype hypothesis_type = Mechanisms | Disease | Biomarkers | Therapeutics | Pathways | Custom

datatype message = Msg string | Engine exn

record loading =
  hypotheses_loading :: bool
  experimental_loading :: bool
  literature_loading :: bool

text \<open>
  The stored experimental design is the object \<open>{ hypothesis: hypothesis.title, ...parsed }\<close>,
  kept as its two ingredients.
\<close>

record design =
  hypothesis_title :: "json option"
  parsed_design :: json

record app_state =
  apiKey :: string
  selectedType :: "hypothesis_type option"
  customPrompt :: string
  hypotheses :: "json option"
  experimentalDesign :: "design option"
  literatureAnalysis :: "json option"
  loading :: loading
  error :: "message option"
  activeTab :: string

text \<open>
  \<open>callClaudeAPI\<close>. The HTTP exchange is outside the program: \<open>http\<close> is its outcome,
  the text of the response or the message of the Error raised on the way (no connection,
  a status that is not ok, a body of another form).
\<close>

definition callClaudeAPI :: "string \<Rightarrow> message + string \<Rightarrow> message + string" where
  "callClaudeAPI key http =
     (if key = [] then Inl (Msg ''Please enter your Anthropic API key'') else http)"

text \<open>Truthiness of a parsed value, and \<open>parsed && parsed.length > 0\<close> on an array.\<close>

fun json_truthy :: "json option \<Rightarrow> bool" where
  "json_truthy None = False"
| "json_truthy (Some JNull) = False"
| "json_truthy (Some (JBool b)) = b"
| "json_truthy (Some (JNumber q)) = (q \<noteq> 0)"
| "json_truthy (Some (JString s)) = (s \<noteq> [])"
| "json_truthy (Some (JArray xs)) = True"
| "json_truthy (Some (JObject ms)) = True"

text \<open>
  With \<open>isArray\<close> set, \<open>parseJSONSafely\<close> returns \<open>null\<close> or an array (lemma
  \<open>parseJSONSafely_array_shape\<close> below), so \<open>parsed.length\<close> is the length of an array.
\<close>

fun has_elements :: "json option \<Rightarrow> bool" where
  "has_elements (Some (JArray xs)) = (length xs > 0)"
| "has_elements _ = False"

text \<open>
  \<open>generateHypotheses\<close>. \<open>context\<close> is the outcome of \<open>buildContext()\<close>; the prompt built
  from it only travels into the request. The state is cleared before the \<open>try\<close>.
\<close>

definition generateHypotheses ::
  "exn + string \<Rightarrow> message + string \<Rightarrow> app_state \<Rightarrow> app_state" where
  "generateHypotheses context http st =
     (case selectedType st of
        None \<Rightarrow> st
      | Some t \<Rightarrow>
          (let st1 = st\<lparr> loading := (loading st)\<lparr>hypotheses_loading := True\<rparr>,
                          error := None,
                          hypotheses := None \<rparr>;
               st2 =
                 (case context of
                    Inl e \<Rightarrow> st1\<lparr>error := Some (Engine e)\<rparr>
                  | Inr ctx \<Rightarrow>
                      (case callClaudeAPI (apiKey st) http of
                         Inl m \<Rightarrow> st1\<lparr>error := Some m\<rparr>
                       | Inr response \<Rightarrow>
                           (case parseJSONSafely response True of
                              Inl e \<Rightarrow> st1\<lparr>error := Some (Engine e)\<rparr>
                            | Inr parsed \<Rightarrow>
                                if has_elements parsed
                                then st1\<lparr>hypotheses := parsed, activeTab := ''results''\<rparr>
                                else st1\<lparr>error := Some (Msg
                                  ''Could not parse hypotheses from response. Try reducing Max Tokens in Settings.'')\<rparr>)))
           in st2\<lparr>loading := (loading st2)\<lparr>hypotheses_loading := False\<rparr>\<rparr>))"

text \<open>
  Reading a property: a TypeError on \<open>null\<close>, \<open>undefined\<close> where the value has no such
  member. The prompt of \<open>generateExperimentalDesign\<close> is a template literal over
  \<open>hypothesis.title\<close>, \<open>hypothesis.hypothesis\<close>, \<open>hypothesis.mechanism\<close> and
  \<open>hypothesis.predictions?.join('; ')\<close>.

  The template literal converts each value to a string. For a parsed object this calls
  its \<open>toString\<close>: the inherited one unless the object has a member of that name, which
  in a parsed value is never a function, and then the conversion raises a TypeError
  (the inherited \<open>valueOf\<close> returns the object itself, a member \<open>valueOf\<close> is no function
  either). An array is converted by \<open>join\<close>, which converts every element but \<open>null\<close>.
  \<open>undefined\<close>, \<open>null\<close>, booleans, numbers and strings always convert.
\<close>

fun get_prop :: "json \<Rightarrow> jstr \<Rightarrow> exn + json option" where
  "get_prop JNull k = Inl TypeError"
| "get_prop (JObject ms) k = Inr (map_of ms k)"
| "get_prop _ k = Inr None"

fun converts :: "json \<Rightarrow> bool" where
  "converts (JObject ms) = (map_of ms (lit ''toString'') = None)"
| "converts (JArray xs) = list_all converts xs"
| "converts _ = True"

definition interpolates :: "json option \<Rightarrow> bool" where
  "interpolates x = (case x of None \<Rightarrow> True | Some v \<Rightarrow> converts v)"

text \<open>
  \<open>predictions?.join('; ')\<close>: nothing is called when \<open>predictions\<close> is \<open>undefined\<close> or
  \<open>null\<close>; an array is joined, which converts its elements; every other value has no
  function \<open>join\<close>, and the call raises.
\<close>

fun joinable :: "json option \<Rightarrow> bool" where
  "joinable None = True"
| "joinable (Some JNull) = True"
| "joinable (Some (JArray xs)) = list_all converts xs"
| "joinable (Some _) = False"

text \<open>
  The evaluation of the prompt: the title that is stored with the design later, or the
  TypeError raised on the way.
\<close>

definition design_prompt :: "json \<Rightarrow> exn + json option" where
  "design_prompt hypothesis =
     (case get_prop hypothesis (lit ''title'') of
        Inl e \<Rightarrow> Inl e
      | Inr title \<Rightarrow>
          if \<not> interpolates title then Inl TypeError
          else
            (case get_prop hypothesis (lit ''hypothesis'') of
               Inl e \<Rightarrow> Inl e
             | Inr statement \<Rightarrow>
                 if \<not> interpolates statement then Inl TypeError
                 else
                   (case get_prop hypothesis (lit ''mechanism'') of
                      Inl e \<Rightarrow> Inl e
                    | Inr mechanism \<Rightarrow>
                        if \<not> interpolates mechanism then Inl TypeError
                        else
                          (case get_prop hypothesis (lit ''predictions'') of
                             Inl e \<Rightarrow> Inl e
                           | Inr predictions \<Rightarrow>
                               if joinable predictions then Inr title else Inl TypeError))))"

definition generateExperimentalDesign ::
  "json \<Rightarrow> message + string \<Rightarrow> app_state \<Rightarrow> app_state" where
  "generateExperimentalDesign hypothesis http st =
     (let st1 = st\<lparr> loading := (loading st)\<lparr>experimental_loading := True\<rparr>, error := None \<rparr>;
          st2 =
            (case design_prompt hypothesis of
               Inl e \<Rightarrow> st1\<lparr>error := Some (Engine e)\<rparr>
             | Inr title \<Rightarrow>
                 (case callClaudeAPI (apiKey st) http of
                    Inl m \<Rightarrow> st1\<lparr>error := Some m\<rparr>
                  | Inr response \<Rightarrow>
                      (case parseJSONSafely response False of
                         Inl e \<Rightarrow> st1\<lparr>error := Some (Engine e)\<rparr>
                       | Inr parsed \<Rightarrow>
                           (case parsed of
                              None \<Rightarrow> st1\<lparr>error := Some (Msg
                                ''Could not parse experimental design. Try reducing Max Tokens in Settings.'')\<rparr>
                            | Some v \<Rightarrow>
                                if json_truthy parsed
                                then st1\<lparr>experimentalDesign :=
                                       Some \<lparr>hypothesis_title = title, parsed_design = v\<rparr>\<rparr>
                                else st1\<lparr>error := Some (Msg
                                  ''Could not parse experimental design. Try reducing Max Tokens in Settings.'')\<rparr>))))
      in st2\<lparr>loading := (loading st2)\<lparr>experimental_loading := False\<rparr>\<rparr>)"

definition generateLiteratureAnalysis ::
  "exn + string \<Rightarrow> message + string \<Rightarrow> app_state \<Rightarrow> app_state" where
  "generateLiteratureAnalysis context http st =
     (let st1 = st\<lparr> loading := (loading st)\<lparr>literature_loading := True\<rparr>, error := None \<rparr>;
          st2 =
            (case context of
               Inl e \<Rightarrow> st1\<lparr>error := Some (Engine e)\<rparr>
             | Inr ctx \<Rightarrow>
                 (case callClaudeAPI (apiKey st) http of
                    Inl m \<Rightarrow> st1\<lparr>error := Some m\<rparr>
                  | Inr response \<Rightarrow>
                      (case parseJSONSafely response False of
                         Inl e \<Rightarrow> st1\<lparr>error := Some (Engine e)\<rparr>
                       | Inr parsed \<Rightarrow>
                           if json_truthy parsed
                           then st1\<lparr>literatureAnalysis := parsed\<rparr>
                           else st1\<lparr>error := Some (Msg
                             ''Could not parse literature analysis. Try reducing Max Tokens in Settings.'')\<rparr>)))
      in st2\<lparr>loading := (loading st2)\<lparr>literature_loading := False\<rparr>\<rparr>)"

section \<open>The shape of an extracted array\<close>

text \<open>
  The parser's stack has an array at its bottom, or is empty with a finished array in
  hand: the state of the machine after the opening bracket of a text and from then on.
\<close>

definition array_frame :: "frame list \<Rightarrow> bool" where
  "array_frame st = (st \<noteq> [] \<and> (case last st of FArr acc \<Rightarrow> True | FObj ms k \<Rightarrow> False))"

definition is_array :: "json \<Rightarrow> bool" where
  "is_array v = (case v of JArray xs \<Rightarrow> True | _ \<Rightarrow> False)"

definition array_bound :: "mode \<Rightarrow> frame list \<Rightarrow> bool" where
  "array_bound m st =
     (array_frame st \<or> (st = [] \<and> (case m of After v \<Rightarrow> is_array v | _ \<Rightarrow> False)))"

section \<open>The characters of numbers and literals\<close>

text \<open>
  The characters with a meaning of their own in a JSON text or in the patterns of the
  extractor; a plain text holds none of them. A number is made of digits, signs, the
  point and the exponent mark.
\<close>

definition is_special :: "char \<Rightarrow> bool" where
  "is_special c =
     (c = dq \<or> c = CHR '','' \<or> c = CHR ''['' \<or> c = CHR '']'' \<or> c = CHR ''{'' \<or> c = CHR ''}''
      \<or> c = CHR 0x5C \<or> is_space c)"

definition plain :: "string \<Rightarrow> bool" where
  "plain e = list_all (\<lambda>c. \<not> is_special c) e"

definition num_char :: "char \<Rightarrow> bool" where
  "num_char c = (is_digit c \<or> c = CHR ''-'' \<or> c = CHR ''+'' \<or> c = CHR ''.''
                 \<or> c = CHR ''e'' \<or> c = CHR ''E'')"
section \<open>Texts cut between two elements\<close>

text \<open>
  A text whose string literals hold no comma and no escaped quote. The scan follows the
  literals as the counting loop of the repair does: a quote opens or closes a literal,
  the character behind a backslash is passed over.
\<close>

fun plain_from :: "bool \<Rightarrow> bool \<Rightarrow> string \<Rightarrow> bool" where
  "plain_from ins esc [] = True"
| "plain_from ins esc (c # cs) =
     (if esc then c \<noteq> dq \<and> plain_from ins False cs
      else if c = CHR 0x5C then plain_from ins True cs
      else if c = dq then plain_from (\<not> ins) False cs
      else if c = CHR '','' \<and> ins then False
      else plain_from ins False cs)"

definition plain_strings :: "string \<Rightarrow> bool" where
  "plain_strings s = plain_from False False s"

text \<open>White space of JSON.\<close>

definition blank :: "string \<Rightarrow> bool" where
  "blank w = list_all is_json_ws w"

text \<open>
  The body of such a string literal, between its quotes, and the string it stands for:
  plain characters, two-character escapes other than the escaped quote, and \<open>\uXXXX\<close>.
\<close>

inductive lit_body :: "string \<Rightarrow> jstr \<Rightarrow> bool" where
  body_end: "lit_body [] []"
| body_char: "c \<noteq> dq \<Longrightarrow> c \<noteq> CHR 0x5C \<Longrightarrow> c \<noteq> CHR '','' \<Longrightarrow> \<not> (of_char c :: nat) < 0x20
     \<Longrightarrow> lit_body b k \<Longrightarrow> lit_body (c # b) (of_char c # k)"
| body_escape: "e \<noteq> dq \<Longrightarrow> escape_char e = Some n \<Longrightarrow> lit_body b k
     \<Longrightarrow> lit_body (CHR 0x5C # e # b) (n # k)"
| body_hex: "length h = 4 \<Longrightarrow> hex4 h = Some n \<Longrightarrow> lit_body b k
     \<Longrightarrow> lit_body (CHR 0x5C # CHR ''u'' # h @ b) (n # k)"

text \<open>
  One step of the parser, told by the text it reads: \<open>token m st p la m' st'\<close> says that
  in mode \<open>m\<close> with stack \<open>st\<close> the machine reads \<open>p\<close> and goes on in mode \<open>m'\<close> with
  stack \<open>st'\<close>, provided the text behind \<open>p\<close> is as \<open>la\<close> asks: anything, a text that
  does not close the bracket just opened, or a text that ends the number or literal
  just read.
\<close>

datatype lookahead = Anything | Not_closed char | Delimiter

fun ahead :: "lookahead \<Rightarrow> string \<Rightarrow> bool" where
  "ahead Anything z = True"
| "ahead (Not_closed c) z = (case skip_ws z of [] \<Rightarrow> False | d # r \<Rightarrow> d \<noteq> c)"
| "ahead Delimiter z =
     (case z of
        [] \<Rightarrow> False
      | d # r \<Rightarrow> is_json_ws d \<or> d = CHR '','' \<or> d = CHR '']'' \<or> d = CHR ''}'')"

inductive token :: "mode \<Rightarrow> frame list \<Rightarrow> string \<Rightarrow> lookahead \<Rightarrow> mode \<Rightarrow> frame list \<Rightarrow> bool" where
  open_array: "blank w \<Longrightarrow> token Value st (w @ ''['') (Not_closed CHR '']'') Value (FArr [] # st)"
| empty_array: "blank w \<Longrightarrow> blank w' \<Longrightarrow>
     token Value st (w @ CHR ''['' # w' @ '']'') Anything (After (JArray [])) st"
| open_object: "blank w \<Longrightarrow> token Value st (w @ ''{'') (Not_closed CHR ''}'') (Key []) st"
| empty_object: "blank w \<Longrightarrow> blank w' \<Longrightarrow>
     token Value st (w @ CHR ''{'' # w' @ ''}'') Anything (After (JObject [])) st"
| string: "blank w \<Longrightarrow> lit_body b k \<Longrightarrow>
     token Value st (w @ dq # b @ [dq]) Anything (After (JString k)) st"
| scalar: "blank w \<Longrightarrow> parse_scalar e = Some (v, []) \<Longrightarrow>
     token Value st (w @ e) Delimiter (After v) st"
| key: "blank w \<Longrightarrow> lit_body b k \<Longrightarrow> blank w' \<Longrightarrow>
     token (Key ms) st (w @ dq # b @ dq # w' @ '':'') Anything Value (FObj ms k # st)"
| next_element: "blank w \<Longrightarrow>
     token (After v) (FArr acc # st) (w @ '','') Anything Value (FArr (v # acc) # st)"
| close_array: "blank w \<Longrightarrow>
     token (After v) (FArr acc # st) (w @ '']'') Anything (After (JArray (rev (v # acc)))) st"
| next_member: "blank w \<Longrightarrow>
     token (After v) (FObj ms k # st) (w @ '','') Anything (Key (obj_put ms k v)) st"
| close_object: "blank w \<Longrightarrow>
     token (After v) (FObj ms k # st) (w @ ''}'') Anything (After (JObject (obj_put ms k v))) st"

text \<open>The open arrays and the open objects of a state of the parser.\<close>

fun open_arrays :: "frame list \<Rightarrow> int" where
  "open_arrays [] = 0"
| "open_arrays (FArr acc # st) = open_arrays st + 1"
| "open_arrays (FObj ms k # st) = open_arrays st"

fun open_frames :: "frame list \<Rightarrow> int" where
  "open_frames [] = 0"
| "open_frames (FArr acc # st) = open_frames st"
| "open_frames (FObj ms k # st) = open_frames st + 1"

definition open_objects :: "mode \<Rightarrow> frame list \<Rightarrow> int" where
  "open_objects m st = open_frames st + (case m of Key ms \<Rightarrow> 1 | _ \<Rightarrow> 0)"

definition clean :: "counter \<Rightarrow> bool" where
  "clean k = (\<not> inString k \<and> \<not> escape k)"

definition reads_on :: "mode \<Rightarrow> bool" where
  "reads_on m = (case m of After v \<Rightarrow> False | _ \<Rightarrow> True)"

text \<open>
  The array at the bottom of the stack only grows: it holds the elements \<open>acc0\<close> (latest
  first) and more, or it is finished and in hand.
\<close>

definition grows :: "json list \<Rightarrow> mode \<Rightarrow> frame list \<Rightarrow> bool" where
  "grows acc0 m st =
     (if st = [] then (\<exists>more. m = After (JArray (rev acc0 @ more)))
      else (\<exists>acc more. last st = FArr acc \<and> rev acc = rev acc0 @ more))"

text \<open>What a text that matches a pattern from its start looks like.\<close>

fun shape :: "atom list \<Rightarrow> string \<Rightarrow> bool" where
  "shape [] s = True"
| "shape (Eoi # rx) s = (s = [] \<and> shape rx s)"
| "shape (One p # rx) s = (\<exists>c t. s = c # t \<and> p c \<and> shape rx t)"
| "shape (Many p # rx) s = (\<exists>w t. s = w @ t \<and> list_all p w \<and> shape rx t)"

text \<open>
  The text behind a comma of a cut array: the parser, about to read a value or a key,
  reads it and the closing bracket to the end.
\<close>

definition value_follows :: "string \<Rightarrow> bool" where
  "value_follows u =
     (\<exists>m st res. reads_on m \<and> array_frame st \<and> plain_from False False (u @ '']'')
        \<and> run m st (u @ '']'') = Some res)"
section \<open>Example inputs\<close>

text \<open>The two example rows of the upload screen, and a row whose p-value is exactly zero.\<close>

definition example_columns :: columns where
  "example_columns =
     \<lparr> metabolite = Some ''metabolite'', foldChange = Some ''log2FC'',
       pValue = Some ''pvalue'', pathway = None \<rparr>"

definition glucose :: row where
  "glucose = [''metabolite'' \<mapsto> Str ''Glucose'', ''log2FC'' \<mapsto> Num (Fin (- 3/2)),
              ''pvalue'' \<mapsto> Num (Fin (1/1000))]"

definition lactate :: row where
  "lactate = [''metabolite'' \<mapsto> Str ''Lactate'', ''log2FC'' \<mapsto> Num (Fin (23/10)),
              ''pvalue'' \<mapsto> Num (Fin (1/10000))]"

definition zero_p_row :: row where
  "zero_p_row = [''metabolite'' \<mapsto> Str ''Citrate'', ''log2FC'' \<mapsto> Num (Fin 2),
                 ''pvalue'' \<mapsto> Num (Fin 0)]"

definition zero_row :: row where
  "zero_row = [''metabolite'' \<mapsto> Str ''Alanine'', ''log2FC'' \<mapsto> Num (Fin 0),
               ''pvalue'' \<mapsto> Num (Fin 0)]"

text \<open>The truncated responses of scenarios B and C, and an array that follows a bracketed remark.\<close>

definition scenario_c :: string where
  \<open>scenario_c = ''[{"rank":1,"title":"A"},{"rank":2,"title":"B"},{"rank":3,"title":"C''\<close>

definition scenario_b :: string where
  \<open>scenario_b = ''Here is the result: [{"rank":1,"title":"X"''\<close>

definition remark_then_array :: string where
  \<open>remark_then_array = ''Note [1]: [1,2]''\<close>

text \<open>A response whose only object holds a brace inside a string, and its repaired text.\<close>

definition brace_in_string :: string where
  \<open>brace_in_string = ''[{"a":"{"} junk''\<close>

definition brace_in_string_repaired :: string where
  \<open>brace_in_string_repaired = ''[{"a":"{"} junk]''\<close>

definition ranked :: "rat \<Rightarrow> string \<Rightarrow> json" where
  "ranked n t = JObject [(lit ''rank'', JNumber n), (lit ''title'', JString (lit t))]"

text \<open>A session in which all three workflows have stored a result.\<close>

definition stored_state :: app_state where
  "stored_state =
     \<lparr> apiKey = ''key'',
       selectedType = Some Mechanisms,
       customPrompt = [],
       hypotheses = Some (JArray [ranked 1 ''A'']),
       experimentalDesign =
         Some \<lparr> hypothesis_title = Some (JString (lit ''A'')), parsed_design = JObject [] \<rparr>,
       literatureAnalysis = Some (JObject []),
       loading = \<lparr> hypotheses_loading = False, experimental_loading = False,
                   literature_loading = False \<rparr>,
       error = None,
       activeTab = ''results'' \<rparr>"

definition server_error :: "message + string" where
  "server_error = Inl (Msg ''API error: 500'')"

text \<open>
  Five arrays and a cut of each, all behind the first element. The first cut ends
  inside the number 25, the second inside the literal \<open>true\<close>, the third at the end of
  the second element, a string that holds a comma, the fourth inside the second element,
  an object, between two of its members, and the fifth behind the comma that follows
  the first element, an object with an escaped quote in a key.
\<close>

definition cut_in_number :: string where
  "cut_in_number = take 4 ''[1,25]''"

definition cut_in_literal :: string where
  "cut_in_literal = take 5 ''[1,true]''"

definition comma_string_array :: string where
  \<open>comma_string_array = ''[1,",",2]''\<close>

definition cut_after_comma_string :: string where
  "cut_after_comma_string = take 6 comma_string_array"

definition nested_object_array :: string where
  \<open>nested_object_array = ''[{"a":1},{"b":{"c":1},"d":25}]''\<close>

definition cut_in_object :: string where
  "cut_in_object = take 21 nested_object_array"

definition escaped_quote_array :: string where
  \<open>escaped_quote_array = ''[{"k":1,"a'' @ [CHR 0x5C] @ ''":":5},7]''\<close>

definition cut_behind_escaped_quote :: string where
  "cut_behind_escaped_quote = take 18 escaped_quote_array"

text \<open>
  An array of three objects, written with white space: the text between the opening
  bracket and the comma behind the second object, the white space behind that comma, and
  the rest.
\<close>

definition two_objects :: string where
  \<open>two_objects = ''{"rank": 1, "title": "A"}, {"rank": 2, "title": "B"}''\<close>

definition line_break :: string where
  "line_break = [CHR 0x0A, CHR '' '', CHR '' '']"

definition third_object :: string where
  \<open>third_object = ''{"rank": 3, "title": "C"} ]''\<close>
section \<open>Properties of the statistical summary\<close>

subsection \<open>Numbers\<close>

lemma num_le_trans: "num_le a b \<Longrightarrow> num_le b c \<Longrightarrow> num_le a c"
  by (cases a; cases b; cases c) (auto simp: num_le_def)

lemma num_sub_positive: "a \<noteq> NaN \<Longrightarrow> b \<noteq> NaN \<Longrightarrow> num_greater (num_sub b a) (Fin 0) = num_less a b"
  by (cases a; cases b) (auto simp: num_greater_def)

lemma not_num_less_le: "a \<noteq> NaN \<Longrightarrow> b \<noteq> NaN \<Longrightarrow> \<not> num_less a b \<Longrightarrow> num_le b a"
  by (simp add: num_le_def)

lemma num_less_imp_le: "num_less a b \<Longrightarrow> num_le a b"
  by (cases a; cases b) (auto simp: num_le_def)

lemma num_greater_not_nan: "num_greater a b \<Longrightarrow> a \<noteq> NaN"
  by (cases a; cases b) (auto simp: num_greater_def)

lemma num_less_not_nan: "num_less a b \<Longrightarrow> a \<noteq> NaN"
  by (cases a) auto

subsection \<open>The sort\<close>

lemma set_insert_by: "set (insert_by cmp x ys) = insert x (set ys)"
  by (induction ys) auto

lemma set_sort_by: "set (sort_by cmp xs) = set xs"
  by (induction xs) (auto simp: sort_by_def set_insert_by)

lemma sorted_insert_desc:
  assumes "sorted_wrt (\<lambda>a b. num_le (k b) (k a)) ys" "k x \<noteq> NaN" "\<forall>y\<in>set ys. k y \<noteq> NaN"
  shows "sorted_wrt (\<lambda>a b. num_le (k b) (k a)) (insert_by (\<lambda>a b. num_sub (k b) (k a)) x ys)"
  using assms
proof (induction ys)
  case Nil
  then show ?case by simp
next
  case (Cons y ys)
  let ?ins = "insert_by (\<lambda>a b. num_sub (k b) (k a)) x ys"
  show ?case
  proof (cases "num_less (k x) (k y)")
    case True
    then have "num_greater (num_sub (k y) (k x)) (Fin 0)"
      using Cons.prems by (simp add: num_sub_positive)
    moreover have "sorted_wrt (\<lambda>a b. num_le (k b) (k a)) ?ins"
      using Cons by simp
    moreover have "\<forall>z\<in>set ?ins. num_le (k z) (k y)"
      using Cons.prems True by (auto simp: set_insert_by num_less_imp_le)
    ultimately show ?thesis by simp
  next
    case False
    then have n: "\<not> num_greater (num_sub (k y) (k x)) (Fin 0)"
      using Cons.prems by (simp add: num_sub_positive)
    have yx: "num_le (k y) (k x)"
      using False Cons.prems by (simp add: not_num_less_le)
    have "\<forall>z\<in>set ys. num_le (k z) (k x)"
      using Cons.prems yx by (auto intro: num_le_trans)
    with n yx Cons.prems show ?thesis by simp
  qed
qed

lemma sorted_sort_desc:
  "\<forall>y\<in>set xs. k y \<noteq> NaN \<Longrightarrow>
   sorted_wrt (\<lambda>a b. num_le (k b) (k a)) (sort_by (\<lambda>a b. num_sub (k b) (k a)) xs)"
proof (induction xs)
  case Nil
  then show ?case by (simp add: sort_by_def)
next
  case (Cons x xs)
  then have "sorted_wrt (\<lambda>a b. num_le (k b) (k a)) (sort_by (\<lambda>a b. num_sub (k b) (k a)) xs)"
    by simp
  from sorted_insert_desc[OF this, of x] Cons.prems
  show ?case by (simp add: sort_by_def set_sort_by[unfolded sort_by_def])
qed

lemma sorted_insert_asc:
  assumes "sorted_wrt (\<lambda>a b. num_le (k a) (k b)) ys" "k x \<noteq> NaN" "\<forall>y\<in>set ys. k y \<noteq> NaN"
  shows "sorted_wrt (\<lambda>a b. num_le (k a) (k b)) (insert_by (\<lambda>a b. num_sub (k a) (k b)) x ys)"
  using assms
proof (induction ys)
  case Nil
  then show ?case by simp
next
  case (Cons y ys)
  let ?ins = "insert_by (\<lambda>a b. num_sub (k a) (k b)) x ys"
  show ?case
  proof (cases "num_less (k y) (k x)")
    case True
    then have "num_greater (num_sub (k x) (k y)) (Fin 0)"
      using Cons.prems by (simp add: num_sub_positive)
    moreover have "sorted_wrt (\<lambda>a b. num_le (k a) (k b)) ?ins"
      using Cons by simp
    moreover have "\<forall>z\<in>set ?ins. num_le (k y) (k z)"
      using Cons.prems True by (auto simp: set_insert_by num_less_imp_le)
    ultimately show ?thesis by simp
  next
    case False
    then have n: "\<not> num_greater (num_sub (k x) (k y)) (Fin 0)"
      using Cons.prems by (simp add: num_sub_positive)
    have xy: "num_le (k x) (k y)"
      using False Cons.prems by (simp add: not_num_less_le)
    have "\<forall>z\<in>set ys. num_le (k x) (k z)"
      using Cons.prems xy by (auto intro: num_le_trans)
    with n xy Cons.prems show ?thesis by simp
  qed
qed

lemma sorted_sort_asc:
  "\<forall>y\<in>set xs. k y \<noteq> NaN \<Longrightarrow>
   sorted_wrt (\<lambda>a b. num_le (k a) (k b)) (sort_by (\<lambda>a b. num_sub (k a) (k b)) xs)"
proof (induction xs)
  case Nil
  then show ?case by (simp add: sort_by_def)
next
  case (Cons x xs)
  then have "sorted_wrt (\<lambda>a b. num_le (k a) (k b)) (sort_by (\<lambda>a b. num_sub (k a) (k b)) xs)"
    by simp
  from sorted_insert_asc[OF this, of x] Cons.prems
  show ?case by (simp add: sort_by_def set_sort_by[unfolded sort_by_def])
qed

lemma sorted_wrt_take: "sorted_wrt R xs \<Longrightarrow> sorted_wrt R (take n xs)"
  by (metis append_take_drop_id sorted_wrt_append)

subsection \<open>Significant rows\<close>

text \<open>A significant row has a fold change that is either above or below zero, never both.\<close>

lemma significant_sign:
  assumes "is_significant s2n cols r"
  shows "num_greater (fc_value s2n cols r) (Fin 0) \<noteq> num_less (fc_value s2n cols r) (Fin 0)"
proof -
  let ?c = "get_cell r (foldChange cols)"
  from assms have a: "num_greater (num_abs (to_number s2n (js_or ?c (Num (Fin 0))))) (Fin (1/2))"
    by (simp add: is_significant_def Let_def)
  show ?thesis
  proof (cases "truthy ?c")
    case True
    with a have "num_less (Fin (1/2)) (num_abs (fc_value s2n cols r))"
      by (simp add: js_or_def fc_value_def num_greater_def)
    then show ?thesis
      by (cases "fc_value s2n cols r") (auto simp: num_greater_def)
  next
    case False
    with a show ?thesis by (simp add: js_or_def num_greater_def)
  qed
qed

lemma filter_split_length:
  "\<forall>x\<in>set xs. P x \<noteq> Q x \<Longrightarrow> length (filter P xs) + length (filter Q xs) = length xs"
  by (induction xs) auto

text \<open>
  Where the filter is the stated predicate: on numeric cells it is
  \<open>|effect| > 0.5 \<and> p < 0.05\<close> unless the p-value is exactly zero, and a missing cell
  reads as 0 for the effect size and as 1 for the significance.
\<close>

lemma significant_numeric:
  assumes "get_cell r (foldChange cols) = Num a" "get_cell r (pValue cols) = Num b" "b \<noteq> Fin 0"
  shows "is_significant s2n cols r
         = (num_greater (num_abs a) (Fin (1/2)) \<and> num_less b (Fin (1/20)))"
proof -
  have fc: "num_greater (num_abs (to_number s2n (js_or (Num a) (Num (Fin 0))))) (Fin (1/2))
            = num_greater (num_abs a) (Fin (1/2))"
    by (cases a) (auto simp: js_or_def num_greater_def)
  have p: "num_less (to_number s2n (js_or (Num b) (Num (Fin 1)))) (Fin (1/20))
           = num_less b (Fin (1/20))"
    using assms(3) by (cases b) (auto simp: js_or_def)
  from fc p assms(1,2) show ?thesis
    by (simp add: is_significant_def Let_def)
qed

lemma significant_missing:
  "get_cell r (pValue cols) = Undefined \<Longrightarrow> \<not> is_significant s2n cols r"
  "get_cell r (foldChange cols) = Undefined \<Longrightarrow> \<not> is_significant s2n cols r"
  by (simp_all add: is_significant_def js_or_def Let_def num_greater_def)

lemma significant_boundaries:
  "get_cell r (foldChange cols) = Num (Fin (1/2)) \<Longrightarrow> \<not> is_significant s2n cols r"
  "get_cell r (pValue cols) = Num (Fin (1/20)) \<Longrightarrow> \<not> is_significant s2n cols r"
  by (simp_all add: is_significant_def js_or_def Let_def num_greater_def)

text \<open>
  Claim C6. A row counts as significant if and only if the absolute effect size is above
  0.5 and the significance below 0.05, a missing significance read as 1. The code departs
  from this at a p-value of exactly zero: \<open>row[pCol] || 1\<close> replaces the zero by 1, and a
  row with fold change 2 and p-value 0 is not counted, although \<open>2 > 0.5\<close> and
  \<open>0 < 0.05\<close>. The theorem evaluates \<open>summarizeData\<close> on that single row.
\<close>

theorem zero_p_value_not_counted:
  "num_greater (num_abs (Fin 2)) (Fin (1/2)) \<and> num_less (Fin 0) (Fin (1/20)) \<and>
   get_cell zero_p_row (foldChange example_columns) = Num (Fin 2) \<and>
   get_cell zero_p_row (pValue example_columns) = Num (Fin 0) \<and>
   \<not> is_significant s2n example_columns zero_p_row \<and>
   summarizeData s2n [zero_p_row] example_columns =
     Some \<lparr> total' = 1, significant = 0, increased = 0, decreased = 0,
            topIncreased = [], topDecreased = [], columns = example_columns \<rparr>"
  by (simp add: summarizeData_def is_significant_def example_columns_def zero_p_row_def
      get_cell_def prop_key_def js_or_def num_greater_def sort_by_def)

text \<open>
  Claim C7. For every non-empty row set and every column assignment \<open>summarizeData\<close>
  returns a summary with \<open>increased + decreased = significant\<close> and
  \<open>significant \<le> total\<close>; \<open>topIncreased\<close> is sorted non-increasing and \<open>topDecreased\<close>
  non-decreasing by effect size, and both have at most 10 rows.
\<close>

theorem summarize_invariants:
  assumes "data \<noteq> []"
  shows "\<exists>s. summarizeData s2n data cols = Some s
     \<and> total' s = length data
     \<and> increased s + decreased s = significant s
     \<and> significant s \<le> total' s
     \<and> sorted_wrt (\<lambda>a b. num_le (fc_value s2n cols b) (fc_value s2n cols a)) (topIncreased s)
     \<and> sorted_wrt (\<lambda>a b. num_le (fc_value s2n cols a) (fc_value s2n cols b)) (topDecreased s)
     \<and> length (topIncreased s) \<le> 10 \<and> length (topDecreased s) \<le> 10"
proof -
  let ?sig = "filter (is_significant s2n cols) data"
  let ?k = "fc_value s2n cols"
  let ?inc = "filter (\<lambda>r. num_greater (?k r) (Fin 0)) ?sig"
  let ?dec = "filter (\<lambda>r. num_less (?k r) (Fin 0)) ?sig"
  have counts: "length ?inc + length ?dec = length ?sig"
    by (rule filter_split_length) (auto dest: significant_sign)
  have le: "length ?sig \<le> length data"
    by simp
  have si: "sorted_wrt (\<lambda>a b. num_le (?k b) (?k a))
              (take 10 (sort_by (\<lambda>a b. num_sub (?k b) (?k a)) ?inc))"
    by (rule sorted_wrt_take, rule sorted_sort_desc) (auto dest: num_greater_not_nan)
  have sd: "sorted_wrt (\<lambda>a b. num_le (?k a) (?k b))
              (take 10 (sort_by (\<lambda>a b. num_sub (?k a) (?k b)) ?dec))"
    by (rule sorted_wrt_take, rule sorted_sort_asc) (auto dest: num_less_not_nan)
  show ?thesis
    using assms counts le si sd by (simp add: summarizeData_def Let_def)
qed

text \<open>An instance: the two example rows, one decreased and one increased.\<close>

theorem summarize_invariants_witness:
  "[glucose, lactate] \<noteq> [] \<and>
   (\<exists>s. summarizeData (\<lambda>_. NaN) [glucose, lactate] example_columns = Some s
     \<and> total' s = length [glucose, lactate]
     \<and> increased s + decreased s = significant s
     \<and> significant s \<le> total' s
     \<and> sorted_wrt (\<lambda>a b. num_le (fc_value (\<lambda>_. NaN) example_columns b)
                             (fc_value (\<lambda>_. NaN) example_columns a)) (topIncreased s)
     \<and> sorted_wrt (\<lambda>a b. num_le (fc_value (\<lambda>_. NaN) example_columns a)
                             (fc_value (\<lambda>_. NaN) example_columns b)) (topDecreased s)
     \<and> length (topIncreased s) \<le> 10 \<and> length (topDecreased s) \<le> 10)"
proof -
  have ne: "[glucose, lactate] \<noteq> []" by simp
  show ?thesis
    using ne summarize_invariants[OF ne, of "\<lambda>_. NaN" example_columns] by blast
qed

lemma zero_cell_like_missing:
  "is_significant s2n cols (r(k \<mapsto> Num (Fin 0))) = is_significant s2n cols (r(k := None))"
  "context_filter s2n cols (r(k \<mapsto> Num (Fin 0))) = context_filter s2n cols (r(k := None))"
  by (simp_all add: is_significant_def context_filter_def get_cell_def js_or_def Let_def)

text \<open>
  Claim C10. A cell that holds the number 0 is treated as a missing one, by
  \<open>summarizeData\<close> and by the filter of \<open>buildContext\<close> alike: \<open>x || d\<close> gives the default
  for both, and writing 0 into the significance or the effect size column of a row
  decides as removing the column from the row does. So a row whose significance is
  exactly 0 gets the default 1 and is never significant, whatever its effect size; an
  effect size of exactly 0 gives the default 0.
\<close>

theorem zero_treated_as_missing:
  "is_significant s2n cols (r(prop_key (pValue cols) \<mapsto> Num (Fin 0)))
     = is_significant s2n cols (r(prop_key (pValue cols) := None))
   \<and> context_filter s2n cols (r(prop_key (pValue cols) \<mapsto> Num (Fin 0)))
     = context_filter s2n cols (r(prop_key (pValue cols) := None))
   \<and> is_significant s2n cols (r(prop_key (foldChange cols) \<mapsto> Num (Fin 0)))
     = is_significant s2n cols (r(prop_key (foldChange cols) := None))
   \<and> context_filter s2n cols (r(prop_key (foldChange cols) \<mapsto> Num (Fin 0)))
     = context_filter s2n cols (r(prop_key (foldChange cols) := None))
   \<and> (get_cell r (pValue cols) = Num (Fin 0) \<longrightarrow>
      js_or (get_cell r (pValue cols)) (Num (Fin 1)) = js_or Undefined (Num (Fin 1))
      \<and> \<not> is_significant s2n cols r
      \<and> \<not> context_filter s2n cols r
      \<and> r \<notin> set (context_rows s2n cols data))
   \<and> (get_cell r (foldChange cols) = Num (Fin 0) \<longrightarrow>
      js_or (get_cell r (foldChange cols)) (Num (Fin 0)) = js_or Undefined (Num (Fin 0))
      \<and> \<not> is_significant s2n cols r
      \<and> \<not> context_filter s2n cols r
      \<and> r \<notin> set (context_rows s2n cols data))"
proof -
  have p: "\<not> is_significant s2n cols r \<and> \<not> context_filter s2n cols r"
    if "get_cell r (pValue cols) = Num (Fin 0)"
    using that by (simp add: is_significant_def context_filter_def js_or_def Let_def)
  have f: "\<not> is_significant s2n cols r \<and> \<not> context_filter s2n cols r"
    if "get_cell r (foldChange cols) = Num (Fin 0)"
    using that by (simp add: is_significant_def context_filter_def js_or_def Let_def num_greater_def)
  have m: "r \<notin> set (context_rows s2n cols data)" if "\<not> context_filter s2n cols r"
    using that by (auto simp: context_rows_def dest: in_set_takeD)
  have j: "js_or (Num (Fin 0)) d = js_or Undefined d" for d
    by (simp add: js_or_def)
  from p m j have pc: "get_cell r (pValue cols) = Num (Fin 0) \<longrightarrow>
      js_or (get_cell r (pValue cols)) (Num (Fin 1)) = js_or Undefined (Num (Fin 1))
      \<and> \<not> is_significant s2n cols r
      \<and> \<not> context_filter s2n cols r
      \<and> r \<notin> set (context_rows s2n cols data)"
    by simp
  from f m j have fc: "get_cell r (foldChange cols) = Num (Fin 0) \<longrightarrow>
      js_or (get_cell r (foldChange cols)) (Num (Fin 0)) = js_or Undefined (Num (Fin 0))
      \<and> \<not> is_significant s2n cols r
      \<and> \<not> context_filter s2n cols r
      \<and> r \<notin> set (context_rows s2n cols data)"
    by simp
  show ?thesis
    by (intro conjI) (fact zero_cell_like_missing pc fc)+
qed

theorem zero_treated_as_missing_witness:
  "get_cell zero_row (pValue example_columns) = Num (Fin 0)
   \<and> get_cell zero_row (foldChange example_columns) = Num (Fin 0)
   \<and> get_cell zero_p_row (pValue example_columns) = Num (Fin 0)
   \<and> num_greater (num_abs (to_number (\<lambda>_. NaN) (get_cell zero_p_row (foldChange example_columns))))
                  (Fin (1/2))
   \<and> \<not> is_significant (\<lambda>_. NaN) example_columns zero_row
   \<and> \<not> is_significant (\<lambda>_. NaN) example_columns zero_p_row
   \<and> \<not> context_filter (\<lambda>_. NaN) example_columns zero_p_row
   \<and> zero_p_row \<notin> set (context_rows (\<lambda>_. NaN) example_columns [glucose, zero_p_row, lactate])"
proof -
  have a: "get_cell zero_row (pValue example_columns) = Num (Fin 0)"
    and b: "get_cell zero_row (foldChange example_columns) = Num (Fin 0)"
    and c: "get_cell zero_p_row (pValue example_columns) = Num (Fin 0)"
    and d: "num_greater (num_abs (to_number (\<lambda>_. NaN)
              (get_cell zero_p_row (foldChange example_columns)))) (Fin (1/2))"
    by (simp_all add: get_cell_def prop_key_def example_columns_def zero_row_def zero_p_row_def
        num_greater_def)
  note t = zero_treated_as_missing[of "\<lambda>_. NaN" example_columns zero_row "[]"]
  note u = zero_treated_as_missing[of "\<lambda>_. NaN" example_columns zero_p_row
      "[glucose, zero_p_row, lactate]"]
  from a b t have r1: "\<not> is_significant (\<lambda>_. NaN) example_columns zero_row"
    by simp
  from c u have r2: "\<not> is_significant (\<lambda>_. NaN) example_columns zero_p_row"
    and r3: "\<not> context_filter (\<lambda>_. NaN) example_columns zero_p_row"
    and r4: "zero_p_row \<notin> set (context_rows (\<lambda>_. NaN) example_columns
               [glucose, zero_p_row, lactate])"
    by simp_all
  show ?thesis
    by (intro conjI) (fact a b c d r1 r2 r3 r4)+
qed

section \<open>Properties of the extractor\<close>

text \<open>
  Claim C1 (scenario C). For the text
  \<^verbatim>\<open>[{"rank":1,"title":"A"},{"rank":2,"title":"B"},{"rank":3,"title":"C\<close>
  the extractor with array shape returns exactly the two complete objects of rank 1 and
  rank 2; the incomplete third element is dropped.
\<close>

theorem scenario_c_two_objects:
  "parseJSONSafely scenario_c True = Inr (Some (JArray [ranked 1 ''A'', ranked 2 ''B'']))"
  by code_simp

text \<open>
  Claim C2 (scenario B), as stated: for the text
  \<^verbatim>\<open>Here is the result: [{"rank":1,"title":"X"\<close>
  the extractor returns \<open>null\<close>. It does not: nothing is trimmed from this text, the
  counting loop finds one open brace and one open bracket, and the closed text parses.
\<close>

theorem scenario_b_not_null:
  "parseJSONSafely scenario_b True \<noteq> Inr None"
  by code_simp

text \<open>
  Claim C2, amended: for that text the extractor does not raise and returns the
  one-element array of the object with rank 1 and title X.
\<close>

theorem scenario_b_one_object:
  "parseJSONSafely scenario_b True = Inr (Some (JArray [ranked 1 ''X'']))"
  by code_simp

text \<open>
  The same response cut one character earlier, inside the title: the second trim
  pattern removes the incomplete pair and the object of rank 1 alone is returned.
\<close>

lemma scenario_b_cut_in_title:
  "parseJSONSafely (butlast scenario_b) True = Inr (Some (JArray [JObject [(lit ''rank'', JNumber 1)]]))"
  by code_simp

subsection \<open>Order of the strategies\<close>

lemma no_match_in_empty_text:
  "js_match rx_array [] = None" "js_match rx_object [] = None"
  "js_match rx_array_open [] = None" "js_match rx_object_open [] = None"
  by (simp_all add: js_match_def rx_array_def rx_object_def rx_array_open_def rx_object_open_def
      chr_def any_star_def)

lemma strategies_of_empty_text:
  "direct_match [] isArray = None" "truncation_repair [] isArray = None"
  "last_complete_element [] isArray = None" "object_salvage [] isArray = None"
  by (simp_all add: direct_match_def direct_parse_def truncation_repair_def
      last_complete_element_def object_salvage_def repaired_def yield_def
      no_match_in_empty_text)

text \<open>
  The nested \<open>try\<close> blocks amount to this: the strategies are tried in order and the
  first value is returned; an exception inside a block only moves on to the next one.
\<close>

lemma parseJSONSafely_first_success:
  "parseJSONSafely text isArray =
     Inr (case direct_match text isArray of
            Some v \<Rightarrow> Some v
          | None \<Rightarrow>
              (case truncation_repair text isArray of
                 Some v \<Rightarrow> Some v
               | None \<Rightarrow>
                   (case last_complete_element text isArray of
                      Some v \<Rightarrow> Some v
                    | None \<Rightarrow> object_salvage text isArray)))"
proof (cases "text = []")
  case True
  then show ?thesis
    by (simp add: parseJSONSafely_def strategies_of_empty_text)
next
  case ne: False
  show ?thesis
  proof (cases "direct_match text isArray")
    case (Some v)
    then have "direct_parse text isArray = Inr (Some v)"
      by (auto simp: direct_match_def yield_def split: sum.splits option.splits)
    with ne Some show ?thesis
      by (simp add: parseJSONSafely_def)
  next
    case d: None
    have rest: "parseJSONSafely text isArray =
      (case repaired text isArray of
         None \<Rightarrow> Inr None
       | Some jsonStr \<Rightarrow>
           (case JSON_parse jsonStr of
              Inr v \<Rightarrow> Inr (Some v)
            | Inl e \<Rightarrow>
                (case (if isArray then last_complete jsonStr else Inr None) of
                   Inr (Some v) \<Rightarrow> Inr (Some v)
                 | _ \<Rightarrow>
                     (case (if isArray then salvage jsonStr else Inr None) of
                        Inr (Some v) \<Rightarrow> Inr (Some v)
                      | _ \<Rightarrow> Inr None))))"
      using ne d unfolding parseJSONSafely_def direct_match_def yield_def
      by (cases "direct_parse text isArray") (auto split: option.splits)
    show ?thesis
    proof (cases "repaired text isArray")
      case None
      with d rest show ?thesis
        by (simp add: truncation_repair_def last_complete_element_def object_salvage_def)
    next
      case r: (Some jsonStr)
      show ?thesis
      proof (cases "JSON_parse jsonStr")
        case (Inr v)
        with d rest r show ?thesis
          by (simp add: truncation_repair_def)
      next
        case p: (Inl e)
        show ?thesis
        proof (cases isArray)
          case False
          with d rest r p show ?thesis
            by (simp add: truncation_repair_def last_complete_element_def
                object_salvage_def)
        next
          case arr: True
          show ?thesis
          proof (cases "yield (last_complete jsonStr)")
            case (Some v)
            then have "last_complete jsonStr = Inr (Some v)"
              by (auto simp: yield_def split: sum.splits option.splits)
            with d rest r p arr Some show ?thesis
              by (simp add: truncation_repair_def last_complete_element_def)
          next
            case l: None
            have s: "salvage jsonStr = Inr (yield (salvage jsonStr))"
              by (simp add: salvage_def yield_def Let_def)
            from l have "(case last_complete jsonStr of
                   Inr (Some v) \<Rightarrow> Inr (Some v)
                 | _ \<Rightarrow>
                     (case salvage jsonStr of
                        Inr (Some v) \<Rightarrow> Inr (Some v)
                      | _ \<Rightarrow> Inr None)) = Inr (yield (salvage jsonStr))"
              by (auto simp: yield_def split: sum.splits option.splits)
            with d rest r p arr l show ?thesis
              by (simp add: truncation_repair_def last_complete_element_def
                  object_salvage_def)
          qed
        qed
      qed
    qed
  qed
qed

lemma parseJSONSafely_never_raises: "\<exists>r. parseJSONSafely text isArray = Inr r"
  by (simp add: parseJSONSafely_first_success)

lemma null_when_no_block_yields:
  "(parseJSONSafely text isArray = Inr None) =
     (direct_match text isArray = None \<and> truncation_repair text isArray = None
      \<and> last_complete_element text isArray = None \<and> object_salvage text isArray = None)"
  by (auto simp: parseJSONSafely_first_success split: option.splits)

text \<open>
  Claim C3. For every text and either shape the extractor returns without raising, and
  it returns \<open>null\<close> only when no recovery strategy yields a value. The first part
  holds. The second fails for the last strategy: the salvage loop of the code counts
  every brace, where step 4 of section 4.4, like the counting loop of the repair in the
  same function, leaves out the braces inside string literals. On the text
  \<^verbatim>\<open>[{"a":"{"} junk\<close> there is no closing bracket to match, the repaired text
  \<^verbatim>\<open>[{"a":"{"} junk]\<close> does not parse, there is no \<open>},\<close>, and the loop of the
  code never sees the depth return to zero: the extractor returns \<open>null\<close>, though the
  string-aware salvage yields the object.
\<close>

theorem salvage_counts_braces_in_strings:
  "(\<forall>text isArray. \<exists>r. parseJSONSafely text isArray = Inr r)
   \<and> repaired brace_in_string True = Some brace_in_string_repaired
   \<and> direct_match brace_in_string True = None
   \<and> truncation_repair brace_in_string True = None
   \<and> last_complete_element brace_in_string True = None
   \<and> salvage brace_in_string_repaired = Inr None
   \<and> parseJSONSafely brace_in_string True = Inr None
   \<and> spec_per_element_salvage brace_in_string True
       = Some (JArray [JObject [(lit ''a'', JString (lit ''{''))]])"
proof -
  have total: "\<forall>text isArray. \<exists>r. parseJSONSafely text isArray = Inr r"
    using parseJSONSafely_never_raises by blast
  have "repaired brace_in_string True = Some brace_in_string_repaired
   \<and> direct_match brace_in_string True = None
   \<and> truncation_repair brace_in_string True = None
   \<and> last_complete_element brace_in_string True = None
   \<and> salvage brace_in_string_repaired = Inr None
   \<and> parseJSONSafely brace_in_string True = Inr None
   \<and> spec_per_element_salvage brace_in_string True
       = Some (JArray [JObject [(lit ''a'', JString (lit ''{''))]])"
    by code_simp
  with total show ?thesis by (rule conjI)
qed

subsection \<open>A value between prose\<close>

lemma star_needs_closer:
  "cls \<notin> set post \<Longrightarrow> rx_here [Many (\<lambda>x. True), One (\<lambda>x. x = cls)] post = None"
  by (induction post) auto

lemma star_reaches_last_closer:
  "cls \<notin> set post \<Longrightarrow>
   rx_here [Many (\<lambda>x. True), One (\<lambda>x. x = cls)] (body @ cls # post) = Some (body @ [cls])"
  by (induction body) (auto simp: star_needs_closer)

lemma search_bracketed:
  assumes "opn \<notin> set pre" "cls \<notin> set post"
  shows "rx_search [One (\<lambda>x. x = opn), Many (\<lambda>x. True), One (\<lambda>x. x = cls)]
           (pre @ opn # body @ cls # post) = Some (pre, opn # body @ [cls], post)"
  using assms
proof (induction pre)
  case Nil
  then show ?case by (simp add: star_reaches_last_closer)
next
  case (Cons c pre)
  then have "c \<noteq> opn" by auto
  with Cons show ?case by simp
qed

text \<open>
  Claim C4, as stated: for every well-formed JSON value embedded anywhere in prose the
  extractor returns what strict parsing of the embedded text returns. It fails when the
  prose has a bracket of its own: the array \<open>[1,2]\<close> after the remark \<open>Note [1]:\<close> is
  lost, the match runs from the first opening bracket of the text to the last closing one.
\<close>

theorem embedded_after_remark_lost:
  "JSON_parse ''[1,2]'' = Inr (JArray [JNumber 1, JNumber 2])
   \<and> remark_then_array = ''Note [1]: '' @ ''[1,2]''
   \<and> parseJSONSafely remark_then_array True = Inr None"
  by code_simp

text \<open>
  Claim C4, amended: when the embedded text starts with the opening bracket of the
  requested shape and ends with its closing bracket, no such opening bracket occurs in
  the prose before it and no such closing bracket in the prose after it, the extractor
  returns the value of strictly parsing the embedded text.
\<close>

theorem extract_embedded:
  assumes "JSON_parse (opn # body @ [cls]) = Inr v"
    and "opn = (if isArray then CHR ''['' else CHR ''{'')"
    and "cls = (if isArray then CHR '']'' else CHR ''}'')"
    and "opn \<notin> set pre" and "cls \<notin> set post"
  shows "parseJSONSafely (pre @ opn # body @ cls # post) isArray = Inr (Some v)"
proof -
  let ?text = "pre @ opn # body @ cls # post"
  have "js_match (if isArray then rx_array else rx_object) ?text = Some (opn # body @ [cls])"
  proof (cases isArray)
    case True
    with assms(2,3) search_bracketed[OF assms(4,5), of body] show ?thesis
      by (simp add: js_match_def rx_array_def chr_def any_star_def)
  next
    case False
    with assms(2,3) search_bracketed[OF assms(4,5), of body] show ?thesis
      by (simp add: js_match_def rx_object_def chr_def any_star_def)
  qed
  then have "direct_parse ?text isArray = Inr (Some v)"
    using assms(1) by (simp add: direct_parse_def)
  then show ?thesis
    by (simp add: parseJSONSafely_def)
qed

theorem extract_embedded_witness:
  "JSON_parse (CHR ''['' # ''1,2'' @ [CHR '']'']) = Inr (JArray [JNumber 1, JNumber 2])
   \<and> CHR ''['' \<notin> set ''Result: '' \<and> CHR '']'' \<notin> set '' (two values)''
   \<and> parseJSONSafely (''Result: '' @ CHR ''['' # ''1,2'' @ CHR '']'' # '' (two values)'') True
       = Inr (Some (JArray [JNumber 1, JNumber 2]))"
proof -
  have p: "JSON_parse (CHR ''['' # ''1,2'' @ [CHR '']'']) = Inr (JArray [JNumber 1, JNumber 2])"
    by code_simp
  have a: "CHR ''['' \<notin> set ''Result: ''" and b: "CHR '']'' \<notin> set '' (two values)''"
    by simp_all
  from extract_embedded[OF p _ _ a b, of True] p a b show ?thesis
    by simp
qed

section \<open>Numbers and literals in a text\<close>

subsection \<open>A scalar is read the same when input follows it\<close>

lemma while_append:
  "\<not> P c \<Longrightarrow> takeWhile P (s @ c # r) = takeWhile P s \<and>
     dropWhile P (s @ c # r) = dropWhile P s @ c # r"
  by (induction s) auto

lemma sign_part_append:
  "e \<noteq> [] \<Longrightarrow> sign_part e = (neg, s) \<Longrightarrow> sign_part (e @ t) = (neg, s @ t)"
  by (cases e) (auto simp: sign_part_def split: if_splits)

lemma int_part_append:
  "int_part s = Some (n, r) \<Longrightarrow> \<not> is_digit c \<Longrightarrow> int_part (s @ c # t) = Some (n, r @ c # t)"
  by (auto simp: int_part_def Let_def while_append split: if_splits)

lemma frac_part_append:
  assumes "frac_part s = Some (q, r)" "\<not> is_digit c" "c \<noteq> CHR ''.''"
  shows "frac_part (s @ c # t) = Some (q, r @ c # t)"
proof (cases s)
  case Nil
  with assms show ?thesis by (simp add: frac_part_def)
next
  case (Cons x xs)
  with assms show ?thesis
    by (auto simp: frac_part_def Let_def while_append split: if_splits)
qed

lemma exp_sign_append:
  "s \<noteq> [] \<Longrightarrow> exp_sign s = (neg, r) \<Longrightarrow> exp_sign (s @ t) = (neg, r @ t)"
  by (cases s) (auto simp: exp_sign_def split: if_splits)

lemma exp_part_append:
  assumes "exp_part s = Some (e, r)" "\<not> is_digit c" "c \<noteq> CHR ''e''" "c \<noteq> CHR ''E''"
  shows "exp_part (s @ c # t) = Some (e, r @ c # t)"
proof (cases s)
  case Nil
  with assms show ?thesis by (simp add: exp_part_def)
next
  case (Cons x xs)
  show ?thesis
  proof (cases "x = CHR ''e'' \<or> x = CHR ''E''")
    case False
    with assms Cons show ?thesis by (auto simp: exp_part_def)
  next
    case True
    obtain neg r1 where es: "exp_sign xs = (neg, r1)" by (cases "exp_sign xs")
    with assms(1) Cons True have ne: "takeWhile is_digit r1 \<noteq> []"
      and e: "e = (if neg then - int (nat_of_digits (takeWhile is_digit r1))
                   else int (nat_of_digits (takeWhile is_digit r1)))"
      and r: "r = dropWhile is_digit r1"
      by (auto simp: exp_part_def Let_def split: if_splits)
    from ne have "r1 \<noteq> []" by auto
    with es have "xs \<noteq> []" by (auto simp: exp_sign_def)
    from exp_sign_append[OF this es] have "exp_sign (xs @ c # t) = (neg, r1 @ c # t)" .
    with Cons True ne e r assms(2) show ?thesis
      by (auto simp: exp_part_def Let_def while_append)
  qed
qed

lemma parse_number_append:
  assumes "parse_number e = Some (q, [])"
    and "\<not> is_digit c" "c \<noteq> CHR ''.''" "c \<noteq> CHR ''e''" "c \<noteq> CHR ''E''"
  shows "parse_number (e @ c # t) = Some (q, c # t)"
proof -
  obtain neg s1 where sp: "sign_part e = (neg, s1)" by (cases "sign_part e")
  from assms(1) sp obtain ip s2 where ip: "int_part s1 = Some (ip, s2)"
    by (auto simp: parse_number_def split: option.splits)
  from assms(1) sp ip obtain fp s3 where fp: "frac_part s2 = Some (fp, s3)"
    by (auto simp: parse_number_def split: option.splits)
  from assms(1) sp ip fp obtain ex where ep: "exp_part s3 = Some (ex, [])"
    and q: "q = (if neg then - 1 else 1) * (of_nat ip + fp) * pow10 ex"
    by (auto simp: parse_number_def split: option.splits)
  from ip have "s1 \<noteq> []" by (auto simp: int_part_def)
  with sp have "e \<noteq> []" by (auto simp: sign_part_def)
  from sign_part_append[OF this sp] have 1: "sign_part (e @ c # t) = (neg, s1 @ c # t)" .
  from int_part_append[OF ip assms(2)] have 2: "int_part (s1 @ c # t) = Some (ip, s2 @ c # t)" .
  from frac_part_append[OF fp assms(2,3)] have 3: "frac_part (s2 @ c # t) = Some (fp, s3 @ c # t)" .
  from exp_part_append[OF ep assms(2,4,5)] have 4: "exp_part (s3 @ c # t) = Some (ex, c # t)"
    by simp
  from 1 2 3 4 q show ?thesis by (simp add: parse_number_def)
qed

lemma number_starts:
  assumes "parse_number e = Some (q, r)"
  shows "e \<noteq> [] \<and> (hd e = CHR ''-'' \<or> is_digit (hd e))"
proof -
  obtain neg s1 where sp: "sign_part e = (neg, s1)" by (cases "sign_part e")
  from assms sp obtain ip s2 where ip: "int_part s1 = Some (ip, s2)"
    by (auto simp: parse_number_def split: option.splits)
  then have "takeWhile is_digit s1 \<noteq> []" by (auto simp: int_part_def Let_def split: if_splits)
  then have "s1 \<noteq> [] \<and> is_digit (hd s1)" by (cases s1) (auto split: if_splits)
  with sp show ?thesis by (cases e) (auto simp: sign_part_def split: if_splits)
qed

lemma take_all: "take n e = w \<Longrightarrow> drop n e = [] \<Longrightarrow> e = w"
  by (metis append_Nil2 append_take_drop_id)

lemma parse_scalar_append:
  assumes "parse_scalar e = Some (v, [])"
    and c: "\<not> is_digit c" "c \<noteq> CHR ''.''" "c \<noteq> CHR ''e''" "c \<noteq> CHR ''E''"
  shows "parse_scalar (e @ c # t) = Some (v, c # t)"
proof -
  consider (t) "e = ''true''" "v = JBool True" | (f) "e = ''false''" "v = JBool False"
    | (n) "e = ''null''" "v = JNull"
    | (num) q where "parse_number e = Some (q, [])" "v = JNumber q"
      "take 4 e \<noteq> ''true''" "take 5 e \<noteq> ''false''" "take 4 e \<noteq> ''null''"
    using assms(1) unfolding parse_scalar_def
    by (auto split: if_splits dest: take_all)
  then show ?thesis
  proof cases
    case t then show ?thesis by (simp add: parse_scalar_def)
  next
    case f then show ?thesis by (simp add: parse_scalar_def)
  next
    case n then show ?thesis by (simp add: parse_scalar_def)
  next
    case num
    from number_starts[OF num(1)] obtain x xs where e: "e = x # xs"
      and x: "x = CHR ''-'' \<or> is_digit x"
      by (cases e) auto
    from x have "x \<noteq> CHR ''t''" "x \<noteq> CHR ''f''" "x \<noteq> CHR ''n''"
      by (auto simp: is_digit_def)
    then have "take 4 (e @ c # t) \<noteq> ''true''" "take 5 (e @ c # t) \<noteq> ''false''"
      "take 4 (e @ c # t) \<noteq> ''null''"
      using e by (auto simp: take_Cons')
    with parse_number_append[OF num(1) c, of t] num(2) show ?thesis
      by (simp add: parse_scalar_def)
  qed
qed

subsection \<open>A scalar holds no special character\<close>

lemma num_char_not_special: "num_char c \<Longrightarrow> \<not> is_special c"
  by (auto simp: num_char_def is_special_def is_digit_def is_space_def dq_def)

lemma digits_taken: "list_all num_char (takeWhile is_digit s)"
  by (induction s) (auto simp: num_char_def)

lemma while_all: "list_all Q (takeWhile P s) \<Longrightarrow> list_all Q (dropWhile P s) \<Longrightarrow> list_all Q s"
  by (metis list_all_append takeWhile_dropWhile_id)

lemma sign_part_chars: "sign_part e = (neg, s) \<Longrightarrow> list_all num_char s \<Longrightarrow> list_all num_char e"
  by (cases e) (auto simp: sign_part_def num_char_def split: if_splits)

lemma int_part_chars: "int_part s = Some (n, r) \<Longrightarrow> list_all num_char r \<Longrightarrow> list_all num_char s"
proof -
  assume a: "int_part s = Some (n, r)" and b: "list_all num_char r"
  from a have r: "r = dropWhile is_digit s" by (auto simp: int_part_def Let_def split: if_splits)
  show ?thesis
    using b r digits_taken[of s] by (auto intro: while_all)
qed

lemma frac_part_chars:
  assumes "frac_part s = Some (q, r)" "list_all num_char r"
  shows "list_all num_char s"
proof (cases s)
  case Nil
  then show ?thesis by simp
next
  case (Cons x xs)
  show ?thesis
  proof (cases "x = CHR ''.''")
    case False
    with assms Cons show ?thesis by (auto simp: frac_part_def)
  next
    case True
    with assms Cons have r: "r = dropWhile is_digit xs"
      by (auto simp: frac_part_def Let_def split: if_splits)
    have "list_all num_char xs"
      using assms(2) r digits_taken[of xs] by (auto intro: while_all)
    with Cons True show ?thesis by (simp add: num_char_def)
  qed
qed

lemma exp_sign_chars: "exp_sign s = (neg, r) \<Longrightarrow> list_all num_char r \<Longrightarrow> list_all num_char s"
  by (cases s) (auto simp: exp_sign_def num_char_def split: if_splits)

lemma exp_part_chars:
  assumes "exp_part s = Some (e, r)" "list_all num_char r"
  shows "list_all num_char s"
proof (cases s)
  case Nil
  then show ?thesis by simp
next
  case (Cons x xs)
  show ?thesis
  proof (cases "x = CHR ''e'' \<or> x = CHR ''E''")
    case False
    with assms Cons show ?thesis by (auto simp: exp_part_def)
  next
    case True
    obtain neg r1 where es: "exp_sign xs = (neg, r1)" by (cases "exp_sign xs")
    with assms(1) Cons True have r: "r = dropWhile is_digit r1"
      by (auto simp: exp_part_def Let_def split: if_splits)
    have "list_all num_char r1"
      using assms(2) r digits_taken[of r1] by (auto intro: while_all)
    with es have "list_all num_char xs" by (rule exp_sign_chars)
    with Cons True show ?thesis by (auto simp: num_char_def)
  qed
qed

lemma number_chars:
  assumes "parse_number e = Some (q, [])"
  shows "list_all num_char e"
proof -
  obtain neg s1 where sp: "sign_part e = (neg, s1)" by (cases "sign_part e")
  from assms sp obtain ip s2 where ip: "int_part s1 = Some (ip, s2)"
    by (auto simp: parse_number_def split: option.splits)
  from assms sp ip obtain fp s3 where fp: "frac_part s2 = Some (fp, s3)"
    by (auto simp: parse_number_def split: option.splits)
  from assms sp ip fp obtain ex where ep: "exp_part s3 = Some (ex, [])"
    by (auto simp: parse_number_def split: option.splits)
  from ep have "list_all num_char s3" by (rule exp_part_chars) simp
  with fp have "list_all num_char s2" by (rule frac_part_chars)
  with ip have "list_all num_char s1" by (rule int_part_chars)
  with sp show ?thesis by (rule sign_part_chars)
qed

lemma scalar_plain:
  assumes "parse_scalar e = Some (v, [])"
  shows "plain e"
proof -
  consider "e = ''true''" | "e = ''false''" | "e = ''null''"
    | q where "parse_number e = Some (q, [])"
    using assms unfolding parse_scalar_def
    by (auto split: if_splits dest: take_all)
  then show ?thesis
  proof cases
    case 4
    from number_chars[OF this] show ?thesis
      unfolding plain_def by (rule list.pred_mono_strong) (simp add: num_char_not_special)
  qed (simp_all add: plain_def is_special_def is_space_def dq_def)
qed

lemma scalar_nonempty: "parse_scalar e = Some (v, []) \<Longrightarrow> e \<noteq> []"
  by (auto simp: parse_scalar_def dest: number_starts)


lemma json_ws_is_space: "is_json_ws c \<Longrightarrow> is_space c"
  by (auto simp: is_json_ws_def is_space_def)

lemma scalar_head:
  assumes "parse_scalar e = Some (v, [])"
  obtains x xs where "e = x # xs" "\<not> is_special x"
proof -
  from scalar_nonempty[OF assms] obtain x xs where e: "e = x # xs" by (cases e) auto
  from scalar_plain[OF assms] e have "\<not> is_special x" by (simp add: plain_def)
  with e that show ?thesis by blast
qed
section \<open>With the array shape the extractor returns an array\<close>

lemma array_frame_push: "array_frame st \<Longrightarrow> array_frame (f # st)"
  by (simp add: array_frame_def)

lemma array_frame_pop: "array_frame (f # st) \<Longrightarrow> st \<noteq> [] \<Longrightarrow> array_frame st"
  by (auto simp: array_frame_def)

lemma array_frame_top: "array_frame (FArr acc # st) \<Longrightarrow> array_frame (FArr acc' # st)"
  by (cases "st = []") (simp_all add: array_frame_def)

lemma array_frame_obj: "array_frame (FObj ms k # st) \<Longrightarrow> st \<noteq> []"
  by (auto simp: array_frame_def)

lemma value_step_bound:
  assumes "value_step st s = Next m' st' s'" "array_frame st"
  shows "array_bound m' st'"
proof -
  from assms(1) have "st' = st \<or> st' = FArr [] # st"
    unfolding value_step_def
    by (auto split: list.splits if_splits option.splits)
  with assms(2) show ?thesis
    by (auto simp: array_bound_def intro: array_frame_push)
qed

lemma key_step_bound:
  assumes "key_step ms st s = Next m' st' s'" "array_frame st"
  shows "array_bound m' st'"
proof -
  from assms(1) have "\<exists>k. st' = FObj ms k # st"
    unfolding key_step_def
    by (auto split: list.splits if_splits option.splits)
  with assms(2) show ?thesis
    by (auto simp: array_bound_def intro: array_frame_push)
qed

lemma after_step_bound:
  assumes "after_step v st s = Next m' st' s'" "array_frame st"
  shows "array_bound m' st'"
proof (cases st)
  case Nil
  with assms show ?thesis by (simp add: after_step_def)
next
  case (Cons f rest)
  show ?thesis
  proof (cases f)
    case (FArr acc)
    with assms(1) Cons consider
      "st' = FArr (v # acc) # rest"
      | "m' = After (JArray (rev (v # acc)))" "st' = rest"
      unfolding after_step_def by (auto split: list.splits if_splits)
    then show ?thesis
    proof cases
      case 1
      with assms(2) Cons FArr show ?thesis
        by (auto simp: array_bound_def intro: array_frame_top)
    next
      case 2
      with assms(2) Cons FArr show ?thesis
        by (cases "rest = []") (auto simp: array_bound_def is_array_def intro: array_frame_pop)
    qed
  next
    case (FObj ms k)
    with assms(1) Cons have st': "st' = rest"
      unfolding after_step_def by (auto split: list.splits if_splits)
    from assms(2) Cons FObj have "rest \<noteq> []" by (auto dest: array_frame_obj)
    with assms(2) Cons st' show ?thesis
      by (auto simp: array_bound_def intro: array_frame_pop)
  qed
qed

lemma step_bound:
  assumes "step m st s = Next m' st' s'" "array_bound m st"
  shows "array_bound m' st'"
proof (cases m)
  case Value
  with assms(2) have "array_frame st" by (simp add: array_bound_def)
  with assms(1) Value show ?thesis
    by (auto simp: step_def intro: value_step_bound)
next
  case (Key ms)
  with assms(2) have "array_frame st" by (simp add: array_bound_def)
  with assms(1) Key show ?thesis
    by (auto simp: step_def intro: key_step_bound)
next
  case (After v)
  show ?thesis
  proof (cases "array_frame st")
    case True
    with assms After show ?thesis by (auto simp: step_def intro: after_step_bound)
  next
    case False
    with assms After have "st = []" by (simp add: array_bound_def)
    with assms After show ?thesis by (simp add: step_def after_step_def)
  qed
qed

lemma step_done_bound:
  assumes "step m st s = Done (Some (v, r))" "array_bound m st"
  shows "is_array v"
proof (cases m)
  case Value
  with assms(1) show ?thesis
    unfolding step_def value_step_def by (auto split: list.splits if_splits option.splits)
next
  case (Key ms)
  with assms(1) show ?thesis
    unfolding step_def key_step_def by (auto split: list.splits if_splits option.splits)
next
  case (After w)
  with assms(1) have "st = []" "v = w"
    unfolding step_def after_step_def by (auto split: list.splits if_splits frame.splits)
  with assms(2) After show ?thesis
    by (simp add: array_bound_def array_frame_def)
qed

lemma run_bound: "array_bound m st \<Longrightarrow> run m st s = Some (v, r) \<Longrightarrow> is_array v"
proof (induction m st s rule: run.induct)
  case (1 m st s)
  show ?case
  proof (cases "step m st s")
    case (Done res)
    with "1.prems"(2) have "step m st s = Done (Some (v, r))"
      by (subst (asm) run.simps) simp
    then show ?thesis using "1.prems"(1) by (rule step_done_bound)
  next
    case (Next m' st' s')
    with "1.prems"(2) have "run m' st' s' = Some (v, r)"
      by (subst (asm) run.simps) simp
    moreover from Next "1.prems"(1) have "array_bound m' st'" by (rule step_bound)
    ultimately show ?thesis using "1.IH"[OF Next] by blast
  qed
qed

lemma parse_bracket_array:
  assumes "JSON_parse (CHR ''['' # t) = Inr v"
  shows "is_array v"
proof -
  from assms obtain r where r: "run Value [] (CHR ''['' # t) = Some (v, r)"
    by (auto simp: JSON_parse_def split: option.splits if_splits)
  have sk: "skip_ws (CHR ''['' # t) = CHR ''['' # t"
    by (simp add: skip_ws_def is_json_ws_def)
  show ?thesis
  proof (cases "step Value [] (CHR ''['' # t)")
    case (Done res)
    with r have "res = Some (v, r)"
      by (subst (asm) run.simps) simp
    with Done show ?thesis
      using sk by (auto simp: step_def value_step_def split: list.splits if_splits)
  next
    case (Next m' st' s')
    then have "(m' = After (JArray []) \<and> st' = []) \<or> (m' = Value \<and> st' = [FArr []])"
      using sk by (auto simp: step_def value_step_def split: list.splits if_splits)
    then have "array_bound m' st'"
      by (auto simp: array_bound_def array_frame_def is_array_def)
    moreover from r Next have "run m' st' s' = Some (v, r)"
      by (subst (asm) run.simps) simp
    ultimately show ?thesis by (rule run_bound)
  qed
qed

text \<open>Every text that is parsed with the array shape starts with an opening bracket.\<close>

lemma here_starts: "rx_here (One (\<lambda>x. x = c) # rest) s = Some m \<Longrightarrow> \<exists>t. m = c # t"
  by (cases s) (auto split: if_splits)

lemma search_starts:
  "rx_search (One (\<lambda>x. x = c) # rest) s = Some (b, m, a) \<Longrightarrow> \<exists>t. m = c # t"
proof (induction s arbitrary: b)
  case Nil
  then show ?case by (auto split: option.splits dest: here_starts)
next
  case (Cons x s)
  show ?case
  proof (cases "rx_here (One (\<lambda>x. x = c) # rest) (x # s)")
    case None
    with Cons.prems obtain b' where "rx_search (One (\<lambda>x. x = c) # rest) s = Some (b', m, a)"
      by (auto split: option.splits)
    then show ?thesis by (rule Cons.IH)
  next
    case (Some m')
    with Cons.prems have "m = m'" by simp
    with here_starts[OF Some] show ?thesis by simp
  qed
qed

lemma match_starts:
  "js_match rx_array s = Some m \<Longrightarrow> \<exists>t. m = CHR ''['' # t"
  "js_match rx_array_open s = Some m \<Longrightarrow> \<exists>t. m = CHR ''['' # t"
  by (auto simp: js_match_def rx_array_def rx_array_open_def chr_def
      split: option.splits dest: search_starts)

lemma search_keeps_head:
  assumes "x \<noteq> c" "rx_search (One (\<lambda>y. y = c) # rest) (x # s) = Some (b, m, a)"
  shows "\<exists>b'. b = x # b'"
proof -
  from assms(1) have "rx_here (One (\<lambda>y. y = c) # rest) (x # s) = None" by simp
  with assms(2) show ?thesis by (auto split: option.splits)
qed

lemma replace_keeps_head:
  "x \<noteq> c \<Longrightarrow> \<exists>t. js_replace (One (\<lambda>y. y = c) # rest) [] (x # s) = x # t"
  by (auto simp: js_replace_def split: option.splits dest: search_keeps_head)

lemma trim_tail_keeps_head: "\<exists>t'. trim_tail (CHR ''['' # t) = CHR ''['' # t'"
proof -
  have c: "CHR ''['' \<noteq> CHR '',''" by simp
  obtain t1 where 1: "js_replace rx_trim1 [] (CHR ''['' # t) = CHR ''['' # t1"
    using replace_keeps_head[OF c] unfolding rx_trim1_def chr_def by blast
  obtain t2 where 2: "js_replace rx_trim2 [] (CHR ''['' # t1) = CHR ''['' # t2"
    using replace_keeps_head[OF c] unfolding rx_trim2_def chr_def by blast
  obtain t3 where 3: "js_replace rx_trim3 [] (CHR ''['' # t2) = CHR ''['' # t3"
    using replace_keeps_head[OF c] unfolding rx_trim3_def chr_def by blast
  obtain t4 where 4: "js_replace rx_trim4 [] (CHR ''['' # t3) = CHR ''['' # t4"
    using replace_keeps_head[OF c] unfolding rx_trim4_def chr_def by blast
  obtain t5 where 5: "js_replace rx_trim5 [] (CHR ''['' # t4) = CHR ''['' # t5"
    using replace_keeps_head[OF c] unfolding rx_trim5_def chr_def by blast
  obtain t6 where 6: "js_replace rx_trim6 [] (CHR ''['' # t5) = CHR ''['' # t6"
    using replace_keeps_head[OF c] unfolding rx_trim6_def chr_def by blast
  from 1 2 3 4 5 6 show ?thesis by (simp add: trim_tail_def)
qed

lemma repaired_starts: "repaired text True = Some jsonStr \<Longrightarrow> \<exists>t. jsonStr = CHR ''['' # t"
proof -
  assume a: "repaired text True = Some jsonStr"
  then obtain m where m: "js_match rx_array_open text = Some m"
    and j: "jsonStr = close_open (trim_tail m)"
    by (auto simp: repaired_def split: option.splits if_splits)
  from match_starts(2)[OF m] obtain t where "m = CHR ''['' # t" by blast
  with trim_tail_keeps_head[of t] obtain t' where "trim_tail m = CHR ''['' # t'" by auto
  with j show ?thesis by (simp add: close_open_def Let_def)
qed

lemma last_complete_array:
  assumes "last_complete (CHR ''['' # t) = Inr (Some v)"
  shows "is_array v"
proof -
  let ?s = "CHR ''['' # t"
  let ?i = "lastIndexOf ?s ''},''"
  from assms have pos: "?i > 0"
    and p: "JSON_parse (substring ?s 0 (?i + 1) @ '']'') = Inr v"
    by (auto simp: last_complete_def Let_def split: if_splits sum.splits)
  from pos have "\<exists>u. substring ?s 0 (?i + 1) = CHR ''['' # u"
    by (auto simp: substring_def Let_def min_def max_def take_Cons' nat_diff_distrib)
  with p show ?thesis by (auto dest: parse_bracket_array)
qed

lemma parseJSONSafely_array_shape:
  assumes "parseJSONSafely text True = Inr (Some v)"
  shows "is_array v"
proof -
  from assms have "direct_match text True = Some v \<or> truncation_repair text True = Some v
      \<or> last_complete_element text True = Some v \<or> object_salvage text True = Some v"
    by (auto simp: parseJSONSafely_first_success split: option.splits)
  then consider (d) "direct_match text True = Some v" | (r) "truncation_repair text True = Some v"
    | (l) "last_complete_element text True = Some v" | (s) "object_salvage text True = Some v"
    by blast
  then show ?thesis
  proof cases
    case d
    then obtain m where "js_match rx_array text = Some m" "JSON_parse m = Inr v"
      by (auto simp: direct_match_def direct_parse_def yield_def split: option.splits sum.splits)
    with match_starts(1) show ?thesis by (auto dest: parse_bracket_array)
  next
    case r
    then obtain j where "repaired text True = Some j" "JSON_parse j = Inr v"
      by (auto simp: truncation_repair_def split: option.splits sum.splits)
    with repaired_starts show ?thesis by (auto dest: parse_bracket_array)
  next
    case l
    then obtain j where "repaired text True = Some j" "last_complete j = Inr (Some v)"
      by (auto simp: last_complete_element_def yield_def split: option.splits sum.splits)
    with repaired_starts show ?thesis by (auto dest: last_complete_array)
  next
    case s
    then obtain j where "salvage j = Inr (Some v)"
      by (auto simp: object_salvage_def yield_def split: option.splits sum.splits)
    then show ?thesis
      by (auto simp: salvage_def Let_def is_array_def split: if_splits)
  qed
qed

section \<open>Arrays cut between two elements\<close>

subsection \<open>String literals\<close>

lemma hex_val_char:
  "hex_val c = Some n \<Longrightarrow>
     c \<noteq> dq \<and> c \<noteq> CHR 0x5C \<and> c \<noteq> CHR '','' \<and> \<not> (of_char c :: nat) < 0x20"
  by (auto simp: hex_val_def is_digit_def dq_def split: if_splits)

lemma hex4_length: "hex4 s = Some n \<Longrightarrow> 4 \<le> length s"
proof -
  assume a: "hex4 s = Some n"
  then obtain a b c d where "map hex_val (take 4 s) = [a, b, c, d]"
    unfolding hex4_def by (auto split: list.splits option.splits)
  then have "length (map hex_val (take 4 s)) = 4" by simp
  then show ?thesis by simp
qed

lemma hex4_take: "hex4 (take 4 s) = hex4 s"
  by (simp add: hex4_def)

lemma hex4_chars:
  assumes "hex4 h = Some n" "length h = 4" "c \<in> set h"
  shows "\<exists>m. hex_val c = Some m"
proof -
  from assms(2) obtain a b x y where h: "h = [a, b, x, y]"
    by (cases h; cases "tl h"; cases "tl (tl h)"; cases "tl (tl (tl h))") auto
  with assms(1,3) show ?thesis
    by (auto simp: hex4_def split: option.splits)
qed

lemma hex4_append: "length h = 4 \<Longrightarrow> hex4 (h @ s) = hex4 h"
  by (simp add: hex4_def)

lemma escape_char_not_u: "escape_char e = Some n \<Longrightarrow> e \<noteq> CHR ''u'' \<and> e \<noteq> CHR '',''"
  by (auto simp: escape_char_def split: if_splits)

text \<open>The parser reads such a body up to its closing quote, whatever follows.\<close>

lemma body_read:
  "lit_body b k \<Longrightarrow> parse_string_chars (b @ dq # z) acc = Some (rev acc @ k, z)"
proof (induction arbitrary: acc rule: lit_body.induct)
  case body_end
  show ?case by (simp add: dq_def)
next
  case (body_char c b k)
  from body_char.hyps body_char.IH[of "of_char c # acc"] show ?case
    by (simp add: dq_def)
next
  case (body_escape e n b k)
  from escape_char_not_u[OF body_escape.hyps(2)] have "e \<noteq> CHR ''u''" by simp
  with body_escape.hyps body_escape.IH[of "n # acc"] show ?case
    by (simp add: dq_def)
next
  case (body_hex h n b k)
  from body_hex.hyps body_hex.IH[of "n # acc"] show ?case
    by (simp add: dq_def hex4_append)
qed

lemma body_chars: "lit_body b k \<Longrightarrow> dq \<notin> set b \<and> CHR '','' \<notin> set b"
proof (induction rule: lit_body.induct)
  case (body_escape e n b k)
  with escape_char_not_u[of e n] show ?case by (auto simp: dq_def)
next
  case (body_hex h n b k)
  have "c \<noteq> dq \<and> c \<noteq> CHR '',''" if "c \<in> set h" for c
    using hex4_chars[OF body_hex.hyps(2,1) that] hex_val_char by blast
  with body_hex show ?case by (auto simp: dq_def)
qed (auto simp: dq_def)

text \<open>The counting loop passes over such a body inside a literal.\<close>

lemma count_inside:
  "inString k \<Longrightarrow> \<not> escape k \<Longrightarrow> c \<noteq> dq \<Longrightarrow> c \<noteq> CHR 0x5C \<Longrightarrow> count_step k c = k"
  by (simp add: count_step_def)

lemma count_escaped:
  "\<not> escape k \<Longrightarrow> count_step (count_step k CHR 0x5C) e = k"
  by (simp add: count_step_def)

lemma count_inside_all:
  "inString k \<Longrightarrow> \<not> escape k \<Longrightarrow> \<forall>c \<in> set s. c \<noteq> dq \<and> c \<noteq> CHR 0x5C \<Longrightarrow>
   foldl count_step k s = k"
  by (induction s) (simp_all add: count_inside)

lemma body_count:
  "lit_body b k \<Longrightarrow> inString k0 \<Longrightarrow> \<not> escape k0 \<Longrightarrow> foldl count_step k0 b = k0"
proof (induction rule: lit_body.induct)
  case body_end
  show ?case by simp
next
  case (body_char c b k)
  then show ?case by (simp add: count_inside)
next
  case (body_escape e n b k)
  then show ?case by (simp add: count_escaped)
next
  case (body_hex h n b k)
  have "\<forall>c \<in> set h. c \<noteq> dq \<and> c \<noteq> CHR 0x5C"
    using hex4_chars[OF body_hex.hyps(2,1)] hex_val_char by blast
  with body_hex.prems have "foldl count_step k0 h = k0"
    by (intro count_inside_all)
  with body_hex show ?case by (simp add: count_escaped)
qed

text \<open>The scan for plain literals passes over such a body as well.\<close>

lemma plain_inside_all:
  "\<forall>c \<in> set s. c \<noteq> dq \<and> c \<noteq> CHR 0x5C \<and> c \<noteq> CHR '','' \<Longrightarrow>
   plain_from True False (s @ t) = plain_from True False t"
  by (induction s) simp_all

lemma body_plain:
  "lit_body b k \<Longrightarrow> plain_from True False (b @ dq # z) = plain_from False False z"
proof (induction rule: lit_body.induct)
  case (body_hex h n b k)
  have "\<forall>c \<in> set h. c \<noteq> dq \<and> c \<noteq> CHR 0x5C \<and> c \<noteq> CHR '',''"
    using hex4_chars[OF body_hex.hyps(2,1)] hex_val_char by blast
  from plain_inside_all[OF this] body_hex show ?case by (simp add: dq_def)
qed (simp_all add: dq_def)

text \<open>
  Conversely, what the parser reads as a string in a text with plain literals is such a
  body and its closing quote.
\<close>

lemma string_body:
  "parse_string_chars s acc = Some (k, r) \<Longrightarrow> plain_from True False s \<Longrightarrow>
   \<exists>b kb. s = b @ dq # r \<and> lit_body b kb \<and> k = rev acc @ kb \<and> plain_from False False r"
proof (induction s acc rule: parse_string_chars.induct)
  case (1 acc)
  then show ?case by simp
next
  case (2 c cs acc)
  show ?case
  proof (cases "c = CHR 0x22")
    case True
    with "2.prems" have "k = rev acc" "r = cs" "plain_from False False cs"
      by (simp_all add: dq_def)
    with True show ?thesis
      by (intro exI[of _ "[]"] exI[of _ "[]"]) (simp add: dq_def lit_body.body_end)
  next
    case nq: False
    show ?thesis
    proof (cases "c = CHR 0x5C")
      case bs: True
      show ?thesis
      proof (cases cs)
        case Nil
        with "2.prems" nq bs show ?thesis by simp
      next
        case (Cons e t)
        from "2.prems"(2) bs Cons have edq: "e \<noteq> dq" and pt: "plain_from True False t"
          by simp_all
        show ?thesis
        proof (cases "e = CHR ''u''")
          case u: True
          then obtain n where h: "hex4 t = Some n"
            and p: "parse_string_chars (drop 4 t) (n # acc) = Some (k, r)"
            using "2.prems"(1) nq bs Cons by (auto split: option.splits)
          let ?h = "take 4 t"
          have len: "length ?h = 4" using hex4_length[OF h] by simp
          have hh: "hex4 ?h = Some n" using h by (simp add: hex4_take)
          have hc: "\<forall>x \<in> set ?h. x \<noteq> dq \<and> x \<noteq> CHR 0x5C \<and> x \<noteq> CHR '',''"
            using hex4_chars[OF hh len] hex_val_char by blast
          have "plain_from True False (?h @ drop 4 t) = plain_from True False (drop 4 t)"
            by (rule plain_inside_all[OF hc])
          with pt have pd: "plain_from True False (drop 4 t)" by simp
          from "2.IH"(1)[OF nq bs Cons u h p pd] obtain b kb where
            b: "drop 4 t = b @ dq # r" "lit_body b kb" "k = rev (n # acc) @ kb"
              "plain_from False False r"
            by blast
          have "t = ?h @ b @ dq # r" using b(1) by (metis append_take_drop_id)
          with bs Cons u have "c # cs = (CHR 0x5C # CHR ''u'' # ?h @ b) @ dq # r" by simp
          moreover have "lit_body (CHR 0x5C # CHR ''u'' # ?h @ b) (n # kb)"
            using len hh b(2) by (rule lit_body.body_hex)
          moreover have "k = rev acc @ n # kb" using b(3) by simp
          ultimately show ?thesis using b(4) by blast
        next
          case nu: False
          then obtain n where h: "escape_char e = Some n"
            and p: "parse_string_chars t (n # acc) = Some (k, r)"
            using "2.prems"(1) nq bs Cons by (auto split: option.splits)
          from "2.IH"(2)[OF nq bs Cons nu h p pt] obtain b kb where
            b: "t = b @ dq # r" "lit_body b kb" "k = rev (n # acc) @ kb"
              "plain_from False False r"
            by blast
          from bs Cons b(1) have "c # cs = (CHR 0x5C # e # b) @ dq # r" by simp
          moreover have "lit_body (CHR 0x5C # e # b) (n # kb)"
            using edq h b(2) by (rule lit_body.body_escape)
          moreover have "k = rev acc @ n # kb" using b(3) by simp
          ultimately show ?thesis using b(4) by blast
        qed
      qed
    next
      case nbs: False
      then have ctl: "\<not> (of_char c :: nat) < 0x20"
        and p: "parse_string_chars cs (of_char c # acc) = Some (k, r)"
        using "2.prems"(1) nq by (auto split: if_splits)
      from "2.prems"(2) nq nbs have nc: "c \<noteq> CHR '',''" and pc: "plain_from True False cs"
        by (auto simp: dq_def split: if_splits)
      from "2.IH"(3)[OF nq nbs ctl p pc] obtain b kb where
        b: "cs = b @ dq # r" "lit_body b kb" "k = rev (of_char c # acc) @ kb"
          "plain_from False False r"
        by blast
      from b(1) have "c # cs = (c # b) @ dq # r" by simp
      moreover have "lit_body (c # b) (of_char c # kb)"
        using nq nbs nc ctl b(2) by (intro lit_body.body_char) (simp_all add: dq_def)
      moreover have "k = rev acc @ of_char c # kb" using b(3) by simp
      ultimately show ?thesis using b(4) by blast
    qed
  qed
qed

text \<open>Without a quote there is no string.\<close>

lemma string_needs_quote: "dq \<notin> set s \<Longrightarrow> parse_string_chars s acc = None"
proof (induction s acc rule: parse_string_chars.induct)
  case (1 acc)
  show ?case by simp
next
  case (2 c cs acc)
  from "2.prems" have nq: "c \<noteq> CHR 0x22" and rest: "dq \<notin> set cs" by (auto simp: dq_def)
  show ?case
  proof (cases "c = CHR 0x5C")
    case bs: True
    show ?thesis
    proof (cases cs)
      case Nil
      with nq bs show ?thesis by simp
    next
      case (Cons e t)
      show ?thesis
      proof (cases "e = CHR ''u''")
        case u: True
        show ?thesis
        proof (cases "hex4 t")
          case None
          with nq bs Cons u show ?thesis by simp
        next
          case (Some n)
          from rest Cons have "dq \<notin> set (drop 4 t)" by (auto dest: in_set_dropD)
          from "2.IH"(1)[OF nq bs Cons u Some this] nq bs Cons u Some show ?thesis by simp
        qed
      next
        case nu: False
        show ?thesis
        proof (cases "escape_char e")
          case None
          with nq bs Cons nu show ?thesis by simp
        next
          case (Some n)
          from rest Cons have "dq \<notin> set t" by simp
          from "2.IH"(2)[OF nq bs Cons nu Some this] nq bs Cons nu Some show ?thesis by simp
        qed
      qed
    qed
  next
    case nbs: False
    show ?thesis
    proof (cases "(of_char c :: nat) < 0x20")
      case True
      with nq nbs show ?thesis by simp
    next
      case False
      from "2.IH"(3)[OF nq nbs False rest] nq nbs False show ?thesis by simp
    qed
  qed
qed
subsection \<open>The text of a number or literal\<close>

text \<open>What the parser reads as a number is a number on its own.\<close>

lemma takeWhile_again:
  "takeWhile P (takeWhile P s) = takeWhile P s" "dropWhile P (takeWhile P s) = []"
  by (auto dest: set_takeWhileD)

lemma int_part_split:
  assumes "int_part s = Some (n, r)"
  obtains ds where "s = ds @ r" "ds \<noteq> []" "is_digit (hd ds)" "int_part ds = Some (n, [])"
proof -
  let ?ds = "takeWhile is_digit s"
  from assms have ne: "?ds \<noteq> []" and z: "\<not> (hd ?ds = CHR ''0'' \<and> length ?ds > 1)"
    and n: "n = nat_of_digits ?ds" and r: "r = dropWhile is_digit s"
    by (auto simp: int_part_def Let_def split: if_splits)
  have 1: "s = ?ds @ r" using r by simp
  have "takeWhile is_digit ?ds = ?ds" "dropWhile is_digit ?ds = []"
    by (rule takeWhile_again)+
  then have 2: "int_part ?ds = Some (n, [])"
    using ne z n by (simp add: int_part_def Let_def)
  from ne have "hd ?ds \<in> set ?ds" by simp
  then have 3: "is_digit (hd ?ds)" by (auto dest: set_takeWhileD)
  from 1 ne 3 2 that show ?thesis by blast
qed

lemma frac_part_split:
  assumes "frac_part s = Some (q, r)"
  obtains f where "s = f @ r" "frac_part f = Some (q, [])" "f = [] \<or> hd f = CHR ''.''"
proof (cases s)
  case Nil
  with assms have "q = 0" "r = []" by (simp_all add: frac_part_def)
  with Nil that[of "[]"] show ?thesis by (simp add: frac_part_def)
next
  case (Cons c t)
  show ?thesis
  proof (cases "c = CHR ''.''")
    case False
    with assms Cons have "q = 0" "r = s" by (simp_all add: frac_part_def)
    with that[of "[]"] show ?thesis by (simp add: frac_part_def)
  next
    case True
    let ?ds = "takeWhile is_digit t"
    from assms Cons True have ne: "?ds \<noteq> []"
      and q: "q = of_nat (nat_of_digits ?ds) / 10 ^ length ?ds" and r: "r = dropWhile is_digit t"
      by (auto simp: frac_part_def Let_def split: if_splits)
    have 1: "s = (c # ?ds) @ r" using Cons r by simp
    have "takeWhile is_digit ?ds = ?ds" "dropWhile is_digit ?ds = []"
      by (rule takeWhile_again)+
    then have 2: "frac_part (c # ?ds) = Some (q, [])"
      using True ne q by (simp add: frac_part_def Let_def)
    from 1 2 True that[of "c # ?ds"] show ?thesis by simp
  qed
qed

lemma exp_part_split:
  assumes "exp_part s = Some (x, r)"
  obtains f where "s = f @ r" "exp_part f = Some (x, [])"
    "f = [] \<or> hd f = CHR ''e'' \<or> hd f = CHR ''E''"
proof (cases s)
  case Nil
  with assms have "x = 0" "r = []" by (simp_all add: exp_part_def)
  with Nil that[of "[]"] show ?thesis by (simp add: exp_part_def)
next
  case (Cons c t)
  show ?thesis
  proof (cases "c = CHR ''e'' \<or> c = CHR ''E''")
    case False
    with assms Cons have "x = 0" "r = s" by (auto simp: exp_part_def)
    with that[of "[]"] show ?thesis by (simp add: exp_part_def)
  next
    case True
    obtain neg r1 where es: "exp_sign t = (neg, r1)" by (cases "exp_sign t")
    let ?ds = "takeWhile is_digit r1"
    from assms Cons True es have ne: "?ds \<noteq> []"
      and x: "x = (if neg then - int (nat_of_digits ?ds) else int (nat_of_digits ?ds))"
      and r: "r = dropWhile is_digit r1"
      by (auto simp: exp_part_def Let_def split: if_splits)
    from ne have dh: "is_digit (hd ?ds)" using set_takeWhileD[of "hd ?ds" is_digit r1] by simp
    obtain sg where t: "t = sg @ r1" and sg: "exp_sign (sg @ ?ds) = (neg, ?ds)"
    proof (cases t)
      case Nil
      with es have "r1 = []" by (simp add: exp_sign_def)
      with ne show ?thesis by simp
    next
      case (Cons d t')
      show ?thesis
      proof (cases "d = CHR ''-'' \<or> d = CHR ''+''")
        case True
        with es Cons have "t = [d] @ r1" "exp_sign ([d] @ ?ds) = (neg, ?ds)"
          by (auto simp: exp_sign_def)
        with that show ?thesis by blast
      next
        case False
        with es Cons have e: "r1 = t" "\<not> neg" by (auto simp: exp_sign_def)
        from dh have "hd ?ds \<noteq> CHR ''-''" "hd ?ds \<noteq> CHR ''+''" by (auto simp: is_digit_def)
        with ne e have "exp_sign ([] @ ?ds) = (neg, ?ds)"
          by (cases ?ds) (auto simp: exp_sign_def)
        with e that[of "[]"] show ?thesis by simp
      qed
    qed
    have 1: "s = (c # sg @ ?ds) @ r" using Cons t r by simp
    have "takeWhile is_digit ?ds = ?ds" "dropWhile is_digit ?ds = []"
      by (rule takeWhile_again)+
    then have 2: "exp_part (c # sg @ ?ds) = Some (x, [])"
      using True sg ne x by (auto simp: exp_part_def Let_def)
    from 1 2 True that[of "c # sg @ ?ds"] show ?thesis by auto
  qed
qed

lemma parse_number_split:
  assumes "parse_number s = Some (q, r)"
  shows "\<exists>e. s = e @ r \<and> parse_number e = Some (q, [])"
proof -
  obtain neg s1 where sp: "sign_part s = (neg, s1)" by (cases "sign_part s")
  from assms sp obtain ip s2 where ip: "int_part s1 = Some (ip, s2)"
    by (auto simp: parse_number_def split: option.splits)
  from assms sp ip obtain fp s3 where fp: "frac_part s2 = Some (fp, s3)"
    by (auto simp: parse_number_def split: option.splits)
  from assms sp ip fp obtain ex where ep: "exp_part s3 = Some (ex, r)"
    and q: "q = (if neg then - 1 else 1) * (of_nat ip + fp) * pow10 ex"
    by (auto simp: parse_number_def split: option.splits)
  from ip obtain ds where ds: "s1 = ds @ s2" "ds \<noteq> []" "is_digit (hd ds)"
    "int_part ds = Some (ip, [])"
    by (rule int_part_split)
  from fp obtain f where f: "s2 = f @ s3" "frac_part f = Some (fp, [])"
    "f = [] \<or> hd f = CHR ''.''"
    by (rule frac_part_split)
  from ep obtain x where x: "s3 = x @ r" "exp_part x = Some (ex, [])"
    "x = [] \<or> hd x = CHR ''e'' \<or> hd x = CHR ''E''"
    by (rule exp_part_split)
  obtain sg where sg: "s = sg @ s1" "sign_part (sg @ ds @ f @ x) = (neg, ds @ f @ x)"
  proof (cases "neg")
    case True
    with sp have "s = ''-'' @ s1" by (cases s) (auto simp: sign_part_def split: if_splits)
    moreover from True have "sign_part (''-'' @ ds @ f @ x) = (neg, ds @ f @ x)"
      by (simp add: sign_part_def)
    ultimately show ?thesis using that by blast
  next
    case False
    with sp have "s = [] @ s1" by (cases s) (auto simp: sign_part_def split: if_splits)
    moreover from ds(3) have "hd ds \<noteq> CHR ''-''" by (auto simp: is_digit_def)
    with ds(2) False have "sign_part ([] @ ds @ f @ x) = (neg, ds @ f @ x)"
      by (cases ds) (auto simp: sign_part_def)
    ultimately show ?thesis using that by blast
  qed
  have 3: "frac_part (f @ x) = Some (fp, x)"
  proof (cases x)
    case Nil
    with f(2) show ?thesis by simp
  next
    case (Cons c t)
    with x(3) have "\<not> is_digit c" "c \<noteq> CHR ''.''" by (auto simp: is_digit_def)
    from frac_part_append[OF f(2) this, of t] Cons show ?thesis by simp
  qed
  have 2: "int_part (ds @ f @ x) = Some (ip, f @ x)"
  proof (cases "f @ x")
    case Nil
    with ds(4) show ?thesis by simp
  next
    case (Cons c t)
    with f(3) x(3) have "c = CHR ''.'' \<or> c = CHR ''e'' \<or> c = CHR ''E''"
      by (cases f) auto
    then have "\<not> is_digit c" by (auto simp: is_digit_def)
    from int_part_append[OF ds(4) this, of t] Cons show ?thesis by simp
  qed
  have "parse_number (sg @ ds @ f @ x) = Some (q, [])"
    using sg(2) 2 3 x(2) q by (simp add: parse_number_def)
  moreover have "s = (sg @ ds @ f @ x) @ r"
    using sg(1) ds(1) f(1) x(1) by simp
  ultimately show ?thesis by blast
qed

lemma parse_scalar_split:
  assumes "parse_scalar s = Some (v, r)"
  shows "\<exists>e. s = e @ r \<and> parse_scalar e = Some (v, [])"
proof -
  have lit: "\<exists>e. s = e @ r \<and> parse_scalar e = Some (v, [])"
    if "take n s = w" "r = drop n s" "parse_scalar w = Some (v, [])" for n w
    using that by (metis append_take_drop_id)
  consider (t) "take 4 s = ''true''" "v = JBool True" "r = drop 4 s"
    | (f) "take 5 s = ''false''" "v = JBool False" "r = drop 5 s"
    | (n) "take 4 s = ''null''" "v = JNull" "r = drop 4 s"
    | (num) q where "parse_number s = Some (q, r)" "v = JNumber q"
    using assms unfolding parse_scalar_def by (auto split: if_splits)
  then show ?thesis
  proof cases
    case t
    have "parse_scalar ''true'' = Some (JBool True, [])" by (simp add: parse_scalar_def)
    with t lit show ?thesis by blast
  next
    case f
    have "parse_scalar ''false'' = Some (JBool False, [])" by (simp add: parse_scalar_def)
    with f lit show ?thesis by blast
  next
    case n
    have "parse_scalar ''null'' = Some (JNull, [])" by (simp add: parse_scalar_def)
    with n lit show ?thesis by blast
  next
    case num
    from parse_number_split[OF num(1)] obtain e where e: "s = e @ r" "parse_number e = Some (q, [])"
      by blast
    from number_starts[OF e(2)] obtain x xs where ex: "e = x # xs"
      and x: "x = CHR ''-'' \<or> is_digit x"
      by (cases e) auto
    from x have "x \<noteq> CHR ''t''" "x \<noteq> CHR ''f''" "x \<noteq> CHR ''n''"
      by (auto simp: is_digit_def)
    then have "take 4 e \<noteq> ''true''" "take 5 e \<noteq> ''false''" "take 4 e \<noteq> ''null''"
      using ex by (auto simp: take_Cons')
    with e(2) num(2) have "parse_scalar e = Some (v, [])"
      by (simp add: parse_scalar_def)
    with e(1) show ?thesis by blast
  qed
qed

text \<open>A number or literal is read the same before a delimiter.\<close>

lemma scalar_read:
  assumes "parse_scalar e = Some (v, [])" "ahead Delimiter z"
  shows "parse_scalar (e @ z) = Some (v, z)"
proof -
  from assms(2) obtain c t where z: "z = c # t"
    and c: "is_json_ws c \<or> c = CHR '','' \<or> c = CHR '']'' \<or> c = CHR ''}''"
    by (cases z) auto
  from c have "\<not> is_digit c" "c \<noteq> CHR ''.''" "c \<noteq> CHR ''e''" "c \<noteq> CHR ''E''"
    by (auto simp: is_json_ws_def is_digit_def)
  from parse_scalar_append[OF assms(1) this, of t] z show ?thesis by simp
qed
subsection \<open>The steps of the parser and the text they read\<close>

lemma skip_blank: "blank w \<Longrightarrow> skip_ws (w @ s) = skip_ws s"
  by (induction w) (simp_all add: blank_def skip_ws_def)

lemma skip_stop: "\<not> is_json_ws c \<Longrightarrow> skip_ws (c # s) = c # s"
  by (simp add: skip_ws_def)

lemma skip_ws_split:
  assumes "skip_ws s = c # r"
  obtains w where "blank w" "s = w @ c # r" "\<not> is_json_ws c"
proof -
  have "s = takeWhile is_json_ws s @ dropWhile is_json_ws s" by simp
  with assms have "s = takeWhile is_json_ws s @ c # r" by (simp add: skip_ws_def)
  moreover have "blank (takeWhile is_json_ws s)"
    by (auto simp: blank_def list_all_iff dest: set_takeWhileD)
  moreover from assms have "\<not> is_json_ws c"
    unfolding skip_ws_def by (metis hd_dropWhile list.sel(1) list.distinct(1))
  ultimately show ?thesis using that by blast
qed

lemma json_ws_chars:
  assumes "is_json_ws c"
  shows "c \<noteq> dq \<and> c \<noteq> CHR 0x5C \<and> c \<noteq> CHR '','' \<and> c \<noteq> CHR ''['' \<and> c \<noteq> CHR '']''
     \<and> c \<noteq> CHR ''{'' \<and> c \<noteq> CHR ''}'' \<and> c \<noteq> CHR '':''"
proof -
  from assms consider "c = CHR '' ''" | "c = CHR 0x09" | "c = CHR 0x0A" | "c = CHR 0x0D"
    by (auto simp: is_json_ws_def)
  then show ?thesis by cases (simp_all add: dq_def)
qed

lemma blank_chars:
  assumes "blank w" "c \<in> set w"
  shows "c \<noteq> dq \<and> c \<noteq> CHR 0x5C \<and> c \<noteq> CHR '','' \<and> c \<noteq> CHR ''['' \<and> c \<noteq> CHR '']''
     \<and> c \<noteq> CHR ''{'' \<and> c \<noteq> CHR ''}'' \<and> c \<noteq> CHR '':''"
proof -
  from assms have "is_json_ws c" by (simp add: blank_def list_all_iff)
  then show ?thesis by (rule json_ws_chars)
qed

lemma plain_outside_all:
  "\<forall>c \<in> set s. c \<noteq> dq \<and> c \<noteq> CHR 0x5C \<Longrightarrow>
   plain_from False False (s @ t) = plain_from False False t"
  by (induction s) simp_all

lemma plain_blank: "blank w \<Longrightarrow> plain_from False False (w @ t) = plain_from False False t"
  by (rule plain_outside_all) (auto dest: blank_chars)

lemma plain_scalar:
  assumes "parse_scalar e = Some (v, [])"
  shows "plain_from False False (e @ t) = plain_from False False t"
proof (rule plain_outside_all)
  from scalar_plain[OF assms] show "\<forall>c \<in> set e. c \<noteq> dq \<and> c \<noteq> CHR 0x5C"
    by (auto simp: plain_def list_all_iff is_special_def)
qed

text \<open>A step reads the text of its token.\<close>

lemma token_step:
  assumes "token m st p la m' st'" "ahead la z"
  shows "step m st (p @ z) = Next m' st' z"
  using assms
proof (cases rule: token.cases)
  case open_array
  from assms(2) open_array obtain d r where "skip_ws z = d # r" "d \<noteq> CHR '']''"
    by (cases "skip_ws z") auto
  with open_array show ?thesis
    by (simp add: step_def value_step_def skip_blank skip_stop is_json_ws_def)
next
  case empty_array
  then show ?thesis
    by (simp add: step_def value_step_def skip_blank skip_stop is_json_ws_def)
next
  case open_object
  from assms(2) open_object obtain d r where "skip_ws z = d # r" "d \<noteq> CHR ''}''"
    by (cases "skip_ws z") auto
  with open_object show ?thesis
    by (simp add: step_def value_step_def skip_blank skip_stop is_json_ws_def)
next
  case empty_object
  then show ?thesis
    by (simp add: step_def value_step_def skip_blank skip_stop is_json_ws_def)
next
  case (string w b k)
  then have "lit_body b k" by simp
  from body_read[OF this, of z "[]"] string show ?thesis
    by (simp add: step_def value_step_def skip_blank skip_stop is_json_ws_def dq_def)
next
  case (scalar w e v)
  then have pe: "parse_scalar e = Some (v, [])" and la: "la = Delimiter" by simp_all
  from pe obtain x xs where e: "e = x # xs" and x: "\<not> is_special x"
    by (rule scalar_head)
  from x have nb: "x \<noteq> CHR ''[''" "x \<noteq> CHR ''{''" "x \<noteq> CHR 0x22" "\<not> is_json_ws x"
    by (auto simp: is_special_def dq_def dest: json_ws_is_space)
  have "parse_scalar (x # xs @ z) = Some (v, z)"
    using scalar_read[OF pe, of z] assms(2) la e by simp
  with scalar e nb show ?thesis
    by (simp add: step_def value_step_def skip_blank skip_stop)
next
  case (key w b k w' ms)
  then have "lit_body b k" by simp
  from body_read[OF this, of "w' @ '':'' @ z" "[]"] key show ?thesis
    by (simp add: step_def key_step_def skip_blank skip_stop is_json_ws_def dq_def)
next
  case next_element
  then show ?thesis
    by (simp add: step_def after_step_def skip_blank skip_stop is_json_ws_def)
next
  case close_array
  then show ?thesis
    by (simp add: step_def after_step_def skip_blank skip_stop is_json_ws_def)
next
  case next_member
  then show ?thesis
    by (simp add: step_def after_step_def skip_blank skip_stop is_json_ws_def)
next
  case close_object
  then show ?thesis
    by (simp add: step_def after_step_def skip_blank skip_stop is_json_ws_def)
qed

text \<open>Conversely, in a text with plain literals every step has read a token.\<close>

lemma value_step_token:
  assumes "value_step st s = Next m' st' s'" "plain_from False False s"
  shows "\<exists>p la. s = p @ s' \<and> token Value st p la m' st' \<and> (la = Delimiter \<or> ahead la s')
           \<and> plain_from False False s'"
proof -
  from assms(1) obtain c r where sk: "skip_ws s = c # r"
    by (cases "skip_ws s") (auto simp: value_step_def)
  from sk obtain w where w: "blank w" "s = w @ c # r" by (rule skip_ws_split)
  from assms(2) w have pl: "plain_from False False (c # r)" by (simp add: plain_blank)
  show ?thesis
  proof (cases "c = CHR ''[''")
    case arr: True
    from assms(1) sk arr obtain d r' where sk2: "skip_ws r = d # r'"
      by (cases "skip_ws r") (auto simp: value_step_def)
    from pl arr have plr: "plain_from False False r" by (simp add: dq_def)
    show ?thesis
    proof (cases "d = CHR '']''")
      case True
      with assms(1) sk arr sk2 have res: "m' = After (JArray [])" "st' = st" "s' = r'"
        by (simp_all add: value_step_def)
      from sk2 obtain w' where w': "blank w'" "r = w' @ d # r'" by (rule skip_ws_split)
      from plr w' True have "plain_from False False r'" by (simp add: plain_blank dq_def)
      moreover have "s = (w @ CHR ''['' # w' @ '']'') @ s'" using w arr w' True res by simp
      moreover have "token Value st (w @ CHR ''['' # w' @ '']'') Anything m' st'"
        using res w(1) w'(1) by (simp add: token.empty_array)
      ultimately show ?thesis using res by (intro exI conjI) auto
    next
      case False
      with assms(1) sk arr sk2 have res: "m' = Value" "st' = FArr [] # st" "s' = r"
        by (simp_all add: value_step_def)
      have "s = (w @ ''['') @ s'" using w arr res by simp
      moreover have "token Value st (w @ ''['') (Not_closed CHR '']'') m' st'"
        using res w(1) by (simp add: token.open_array)
      moreover have "ahead (Not_closed CHR '']'') s'" using sk2 False res by simp
      ultimately show ?thesis using plr res by (intro exI conjI) auto
    qed
  next
    case narr: False
    show ?thesis
    proof (cases "c = CHR ''{''")
      case obj: True
      from assms(1) sk narr obj obtain d r' where sk2: "skip_ws r = d # r'"
        by (cases "skip_ws r") (auto simp: value_step_def)
      from pl obj have plr: "plain_from False False r" by (simp add: dq_def)
      show ?thesis
      proof (cases "d = CHR ''}''")
        case True
        with assms(1) sk narr obj sk2 have res: "m' = After (JObject [])" "st' = st" "s' = r'"
          by (simp_all add: value_step_def)
        from sk2 obtain w' where w': "blank w'" "r = w' @ d # r'" by (rule skip_ws_split)
        from plr w' True have "plain_from False False r'" by (simp add: plain_blank dq_def)
        moreover have "s = (w @ CHR ''{'' # w' @ ''}'') @ s'" using w obj w' True res by simp
        moreover have "token Value st (w @ CHR ''{'' # w' @ ''}'') Anything m' st'"
          using res w(1) w'(1) by (simp add: token.empty_object)
        ultimately show ?thesis using res by (intro exI conjI) auto
      next
        case False
        with assms(1) sk narr obj sk2 have res: "m' = Key []" "st' = st" "s' = r"
          by (simp_all add: value_step_def)
        have "s = (w @ ''{'') @ s'" using w obj res by simp
        moreover have "token Value st (w @ ''{'') (Not_closed CHR ''}'') m' st'"
          using res w(1) by (simp add: token.open_object)
        moreover have "ahead (Not_closed CHR ''}'') s'" using sk2 False res by simp
        ultimately show ?thesis using plr res by (intro exI conjI) auto
      qed
    next
      case nobj: False
      show ?thesis
      proof (cases "c = CHR 0x22")
        case str: True
        from assms(1) sk narr nobj str obtain k r' where
          ps: "parse_string_chars r [] = Some (k, r')"
          and res: "m' = After (JString k)" "st' = st" "s' = r'"
          by (auto simp: value_step_def split: option.splits)
        from pl str have "plain_from True False r" by (simp add: dq_def)
        from string_body[OF ps this] obtain b where
          b: "r = b @ dq # r'" "lit_body b k" "plain_from False False r'"
          by auto
        have "s = (w @ dq # b @ [dq]) @ s'" using w str b(1) res by (simp add: dq_def)
        moreover have "token Value st (w @ dq # b @ [dq]) Anything m' st'"
          using res w(1) b(2) by (simp add: token.string)
        ultimately show ?thesis using b(3) res by (intro exI conjI) auto
      next
        case nstr: False
        from assms(1) sk narr nobj nstr obtain v r' where
          ps: "parse_scalar (c # r) = Some (v, r')"
          and res: "m' = After v" "st' = st" "s' = r'"
          by (auto simp: value_step_def split: option.splits)
        from parse_scalar_split[OF ps] obtain e where
          e: "c # r = e @ r'" "parse_scalar e = Some (v, [])"
          by blast
        from pl e have "plain_from False False r'" by (simp add: plain_scalar)
        moreover have "s = (w @ e) @ s'" using w e(1) res by simp
        moreover have "token Value st (w @ e) Delimiter m' st'"
          using res w(1) e(2) by (simp add: token.scalar)
        ultimately show ?thesis using res by (intro exI conjI) auto
      qed
    qed
  qed
qed

lemma key_step_token:
  assumes "key_step ms st s = Next m' st' s'" "plain_from False False s"
  shows "\<exists>p. s = p @ s' \<and> token (Key ms) st p Anything m' st' \<and> plain_from False False s'"
proof -
  from assms(1) obtain c r where sk: "skip_ws s = c # r"
    by (cases "skip_ws s") (auto simp: key_step_def)
  from sk obtain w where w: "blank w" "s = w @ c # r" by (rule skip_ws_split)
  from assms(1) sk have c: "c = CHR 0x22"
    by (auto simp: key_step_def split: if_splits)
  from assms(1) sk c obtain k r' where ps: "parse_string_chars r [] = Some (k, r')"
    by (auto simp: key_step_def split: option.splits)
  from assms(1) sk c ps obtain d r'' where sk2: "skip_ws r' = d # r''"
    by (cases "skip_ws r'") (auto simp: key_step_def)
  from assms(1) sk c ps sk2 have d: "d = CHR '':''"
    and res: "m' = Value" "st' = FObj ms k # st" "s' = r''"
    by (auto simp: key_step_def split: if_splits)
  from sk2 obtain w' where w': "blank w'" "r' = w' @ d # r''" by (rule skip_ws_split)
  from assms(2) w c have "plain_from True False r" by (simp add: plain_blank dq_def)
  from string_body[OF ps this] obtain b where
    b: "r = b @ dq # r'" "lit_body b k" "plain_from False False r'"
    by auto
  from b(3) w' d have "plain_from False False r''" by (simp add: plain_blank dq_def)
  moreover have "s = (w @ dq # b @ dq # w' @ '':'') @ s'"
    using w c b(1) w' d res by (simp add: dq_def)
  moreover have "token (Key ms) st (w @ dq # b @ dq # w' @ '':'') Anything m' st'"
    using res w(1) b(2) w'(1) by (simp add: token.key)
  ultimately show ?thesis using res by (intro exI conjI) auto
qed

lemma after_step_token:
  assumes "after_step v st s = Next m' st' s'" "plain_from False False s"
  shows "\<exists>p. s = p @ s' \<and> token (After v) st p Anything m' st' \<and> plain_from False False s'"
proof (cases st)
  case Nil
  with assms(1) show ?thesis by (simp add: after_step_def)
next
  case (Cons f st0)
  from assms(1) Cons obtain c r where sk: "skip_ws s = c # r"
    by (cases "skip_ws s"; cases f) (auto simp: after_step_def)
  from sk obtain w where w: "blank w" "s = w @ c # r" by (rule skip_ws_split)
  from assms(1) Cons sk have c: "c = CHR '','' \<or> c = CHR '']'' \<or> c = CHR ''}''" and r: "s' = r"
    by (cases f; auto simp: after_step_def split: if_splits)+
  from assms(2) w c have pl: "plain_from False False r"
    by (auto simp: plain_blank dq_def)
  show ?thesis
  proof (cases f)
    case (FArr acc)
    show ?thesis
    proof (cases "c = CHR '',''")
      case True
      with assms(1) Cons FArr sk have res: "m' = Value" "st' = FArr (v # acc) # st0"
        by (simp_all add: after_step_def)
      have "s = (w @ '','') @ s'" using w True r by simp
      moreover have "token (After v) st (w @ '','') Anything m' st'"
        using res Cons FArr w(1) by (simp add: token.next_element)
      ultimately show ?thesis using pl r by (intro exI conjI) auto
    next
      case False
      with assms(1) Cons FArr sk have cb: "c = CHR '']''"
        and res: "m' = After (JArray (rev (v # acc)))" "st' = st0"
        by (auto simp: after_step_def split: if_splits)
      have "s = (w @ '']'') @ s'" using w cb r by simp
      moreover have "token (After v) st (w @ '']'') Anything m' st'"
        unfolding res Cons FArr using w(1) by (rule token.close_array)
      ultimately show ?thesis using pl r by (intro exI conjI) auto
    qed
  next
    case (FObj ms k)
    show ?thesis
    proof (cases "c = CHR '',''")
      case True
      with assms(1) Cons FObj sk have res: "m' = Key (obj_put ms k v)" "st' = st0"
        by (simp_all add: after_step_def)
      have "s = (w @ '','') @ s'" using w True r by simp
      moreover have "token (After v) st (w @ '','') Anything m' st'"
        using res Cons FObj w(1) by (simp add: token.next_member)
      ultimately show ?thesis using pl r by (intro exI conjI) auto
    next
      case False
      with assms(1) Cons FObj sk have cb: "c = CHR ''}''"
        and res: "m' = After (JObject (obj_put ms k v))" "st' = st0"
        by (auto simp: after_step_def split: if_splits)
      have "s = (w @ ''}'') @ s'" using w cb r by simp
      moreover have "token (After v) st (w @ ''}'') Anything m' st'"
        unfolding res Cons FObj using w(1) by (rule token.close_object)
      ultimately show ?thesis using pl r by (intro exI conjI) auto
    qed
  qed
qed

lemma step_token:
  assumes "step m st s = Next m' st' s'" "plain_from False False s"
  shows "\<exists>p la. s = p @ s' \<and> token m st p la m' st' \<and> (la = Delimiter \<or> ahead la s')
           \<and> plain_from False False s'"
proof (cases m)
  case Value
  with assms show ?thesis using value_step_token[of st s m' st' s'] by (simp add: step_def)
next
  case (Key ms)
  with assms key_step_token[of ms st s m' st' s'] obtain p where
    "s = p @ s'" "token m st p Anything m' st'" "plain_from False False s'"
    by (auto simp: step_def)
  moreover have "ahead Anything s'" by simp
  ultimately show ?thesis by blast
next
  case (After v)
  with assms after_step_token[of v st s m' st' s'] obtain p where
    "s = p @ s'" "token m st p Anything m' st'" "plain_from False False s'"
    by (auto simp: step_def)
  moreover have "ahead Anything s'" by simp
  ultimately show ?thesis by blast
qed
subsection \<open>What a token is made of\<close>

lemma scalar_chars:
  assumes "parse_scalar e = Some (v, [])" "c \<in> set e"
  shows "c \<noteq> dq \<and> c \<noteq> CHR 0x5C \<and> c \<noteq> CHR '','' \<and> c \<noteq> CHR ''['' \<and> c \<noteq> CHR '']''
     \<and> c \<noteq> CHR ''{'' \<and> c \<noteq> CHR ''}''"
proof -
  from scalar_plain[OF assms(1)] assms(2) have "\<not> is_special c"
    by (simp add: plain_def list_all_iff)
  then show ?thesis by (simp add: is_special_def)
qed

lemma token_nonempty: "token m st p la m' st' \<Longrightarrow> p \<noteq> []"
  by (cases rule: token.cases) (auto dest: scalar_nonempty)

lemma token_delimiter:
  "token m st p Delimiter m' st' \<Longrightarrow> m = Value \<and> st' = st \<and> (\<exists>v. m' = After v)"
  by (cases rule: token.cases) auto

lemma token_lookahead: "token m st p la m' st' \<Longrightarrow> la \<noteq> Not_closed CHR '',''"
  by (cases rule: token.cases) auto

lemma token_value_stack: "token m st p la m' st' \<Longrightarrow> st' \<noteq> [] \<or> m' \<noteq> Value"
  by (cases rule: token.cases) auto

text \<open>A comma in a token is the comma between two elements or two members.\<close>

lemma token_comma:
  assumes "token m st p la m' st'" "CHR '','' \<in> set p"
  shows "blank (butlast p) \<and> last p = CHR '','' \<and> reads_on m'"
  using assms
proof (cases rule: token.cases)
  case (string w b k)
  with assms(2) body_chars[of b k] show ?thesis by (auto simp: dq_def dest: blank_chars)
next
  case (scalar w e v)
  with assms(2) show ?thesis by (auto dest: blank_chars scalar_chars)
next
  case (key w b k w' ms)
  with assms(2) body_chars[of b k] show ?thesis by (auto simp: dq_def dest: blank_chars)
qed (auto simp: reads_on_def dest: blank_chars)

text \<open>The counting loop over a token follows the stack of the parser.\<close>

lemma count_outside:
  assumes "clean k" "c \<noteq> dq" "c \<noteq> CHR 0x5C" "c \<noteq> CHR ''[''" "c \<noteq> CHR '']''"
    "c \<noteq> CHR ''{''" "c \<noteq> CHR ''}''"
  shows "count_step k c = k"
  using assms by (simp add: count_step_def clean_def)

lemma count_outside_all:
  assumes "clean k"
    and "\<forall>c \<in> set s. c \<noteq> dq \<and> c \<noteq> CHR 0x5C \<and> c \<noteq> CHR ''['' \<and> c \<noteq> CHR '']''
           \<and> c \<noteq> CHR ''{'' \<and> c \<noteq> CHR ''}''"
  shows "foldl count_step k s = k"
  using assms(2) by (induction s) (simp_all add: count_outside[OF assms(1)])

lemma count_blank: "clean k \<Longrightarrow> blank w \<Longrightarrow> foldl count_step k w = k"
  by (rule count_outside_all) (auto dest: blank_chars)

lemma count_scalar: "clean k \<Longrightarrow> parse_scalar e = Some (v, []) \<Longrightarrow> foldl count_step k e = k"
  by (rule count_outside_all) (auto dest: scalar_chars)

lemma count_string:
  assumes "clean k" "lit_body b kk"
  shows "count_step (foldl count_step (count_step k dq) b) dq = k"
proof -
  let ?k1 = "k\<lparr>inString := True\<rparr>"
  from assms(1) have 1: "count_step k dq = ?k1"
    by (simp add: count_step_def clean_def dq_def)
  from assms(1) have in1: "inString ?k1" "\<not> escape ?k1" by (simp_all add: clean_def)
  from body_count[OF assms(2) in1] have 2: "foldl count_step ?k1 b = ?k1" .
  from assms(1) have 3: "count_step ?k1 dq = k"
    by (simp add: count_step_def clean_def dq_def)
  from 1 2 3 show ?thesis by simp
qed

lemma count_bracket:
  assumes "clean k"
  shows "count_step k CHR ''['' = k\<lparr>brackets := brackets k + 1\<rparr>"
    and "count_step k CHR '']'' = k\<lparr>brackets := brackets k - 1\<rparr>"
    and "count_step k CHR ''{'' = k\<lparr>braces := braces k + 1\<rparr>"
    and "count_step k CHR ''}'' = k\<lparr>braces := braces k - 1\<rparr>"
    and "count_step k CHR '','' = k" and "count_step k CHR '':'' = k"
  using assms by (simp_all add: count_step_def clean_def dq_def)

definition moved :: "counter \<Rightarrow> int \<Rightarrow> int \<Rightarrow> counter" where
  "moved k a b = k\<lparr>brackets := brackets k + a, braces := braces k + b\<rparr>"

lemma moved_simps:
  "moved k 0 0 = k" "moved (moved k a b) c d = moved k (a + c) (b + d)"
  "clean (moved k a b) = clean k"
  "k\<lparr>brackets := brackets k + a\<rparr> = moved k a 0" "k\<lparr>braces := braces k + b\<rparr> = moved k 0 b"
  "k\<lparr>brackets := brackets k - a\<rparr> = moved k (- a) 0" "k\<lparr>braces := braces k - b\<rparr> = moved k 0 (- b)"
  by (simp_all add: moved_def clean_def)

lemma token_count:
  assumes "token m st p la m' st'" "clean k"
  shows "foldl count_step k (p @ t)
         = foldl count_step (moved k (open_arrays st' - open_arrays st)
                                     (open_objects m' st' - open_objects m st)) t"
  using assms(1)
proof (cases rule: token.cases)
  case open_array
  with assms(2) show ?thesis
    by (simp add: count_blank count_bracket open_objects_def moved_simps)
next
  case empty_array
  with assms(2) show ?thesis
    by (simp add: count_blank count_bracket open_objects_def moved_simps)
next
  case open_object
  with assms(2) show ?thesis
    by (simp add: count_blank count_bracket open_objects_def moved_simps)
next
  case empty_object
  with assms(2) show ?thesis
    by (simp add: count_blank count_bracket open_objects_def moved_simps)
next
  case (string w b kk)
  with assms(2) show ?thesis
    by (simp add: count_blank count_string open_objects_def moved_simps)
next
  case (scalar w e v)
  with assms(2) show ?thesis
    by (simp add: count_blank count_scalar open_objects_def moved_simps)
next
  case (key w b kk w' ms)
  with assms(2) show ?thesis
    by (simp add: count_blank count_string count_bracket open_objects_def moved_simps)
next
  case next_element
  with assms(2) show ?thesis
    by (simp add: count_blank count_bracket open_objects_def moved_simps)
next
  case close_array
  with assms(2) show ?thesis
    by (simp add: count_blank count_bracket open_objects_def moved_simps)
next
  case next_member
  with assms(2) show ?thesis
    by (simp add: count_blank count_bracket open_objects_def moved_simps)
next
  case close_object
  with assms(2) show ?thesis
    by (simp add: count_blank count_bracket open_objects_def moved_simps)
qed

subsection \<open>What may follow a token\<close>

lemma skip_ws_append: "skip_ws s = d # r \<Longrightarrow> skip_ws (s @ x) = d # r @ x"
proof -
  assume a: "skip_ws s = d # r"
  then obtain w where "blank w" "s = w @ d # r" "\<not> is_json_ws d" by (rule skip_ws_split)
  then show ?thesis by (simp add: skip_blank skip_stop)
qed

lemma skip_ws_blank: "blank w \<Longrightarrow> skip_ws w = []"
  by (simp add: skip_ws_def blank_def list_all_iff)

lemma skip_ws_nothing: "skip_ws s = [] \<Longrightarrow> blank s"
  by (simp add: skip_ws_def blank_def list_all_iff)

lemma ahead_extend: "ahead la s \<Longrightarrow> ahead la (s @ x)"
proof (cases la)
  case (Not_closed c)
  assume "ahead la s"
  with Not_closed obtain d r where "skip_ws s = d # r" "d \<noteq> c"
    by (cases "skip_ws s") auto
  with Not_closed skip_ws_append[of s d r x] show ?thesis by simp
next
  case Delimiter
  assume "ahead la s"
  with Delimiter show ?thesis by (cases s) auto
qed simp

lemma ahead_swap:
  assumes "ahead la (t @ '']'')" "la \<noteq> Not_closed CHR '',''"
  shows "ahead la (t @ CHR '','' # x)"
proof (cases la)
  case Anything
  then show ?thesis by simp
next
  case (Not_closed c)
  show ?thesis
  proof (cases "skip_ws t")
    case Nil
    then have "blank t" by (rule skip_ws_nothing)
    then have "skip_ws (t @ CHR '','' # x) = CHR '','' # x"
      by (simp add: skip_blank skip_stop is_json_ws_def)
    with Not_closed assms(2) show ?thesis by simp
  next
    case (Cons d r)
    from skip_ws_append[OF Cons] have "skip_ws (t @ '']'') = d # r @ '']''"
      "skip_ws (t @ CHR '','' # x) = d # r @ CHR '','' # x"
      by simp_all
    with Not_closed assms(1) show ?thesis by simp
  qed
next
  case Delimiter
  with assms(1) show ?thesis by (cases t) auto
qed

subsection \<open>The run of the parser over a text that ends with the closing bracket\<close>

lemma run_next: "step m st s = Next m' st' s' \<Longrightarrow> run m st s = run m' st' s'"
  by (subst run.simps) simp

lemma run_stop: "step m st s = Done res \<Longrightarrow> run m st s = res"
  by (subst run.simps) simp

lemma step_done:
  assumes "step m st s = Done (Some x)"
  shows "st = [] \<and> m = After (fst x) \<and> snd x = s"
proof (cases m)
  case Value
  with assms show ?thesis
    unfolding step_def value_step_def by (auto split: list.splits if_splits option.splits)
next
  case (Key ms)
  with assms show ?thesis
    unfolding step_def key_step_def by (auto split: list.splits if_splits option.splits)
next
  case (After w)
  with assms show ?thesis
    unfolding step_def after_step_def by (auto split: list.splits if_splits frame.splits)
qed

lemma step_empty: "step m st [] = Next m' st' s' \<Longrightarrow> False"
  by (drule step_decreases) simp

lemma run_empty:
  assumes "run m st [] = Some (v, r)"
  shows "st = [] \<and> m = After v \<and> r = []"
proof (cases "step m st []")
  case (Done res)
  with assms have "step m st [] = Done (Some (v, r))" by (simp add: run_stop)
  from step_done[OF this] show ?thesis by auto
next
  case (Next m' st' s')
  then show ?thesis by (auto dest: step_empty)
qed

lemma after_needs_delimiter:
  assumes "run (After v) st s = Some res" "st \<noteq> []"
  shows "ahead Delimiter s"
proof -
  from assms(2) obtain f st0 where st: "st = f # st0" by (cases st) auto
  have "\<exists>c r. skip_ws s = c # r \<and> (c = CHR '','' \<or> c = CHR '']'' \<or> c = CHR ''}'')"
  proof (cases "skip_ws s")
    case Nil
    with st have "step (After v) st s = Done None"
      by (cases f) (simp_all add: step_def after_step_def)
    with assms(1) show ?thesis by (simp add: run_stop)
  next
    case (Cons c r)
    show ?thesis
    proof (rule ccontr)
      assume "\<not> ?thesis"
      with Cons have "c \<noteq> CHR '',''" "c \<noteq> CHR '']''" "c \<noteq> CHR ''}''" by auto
      with st Cons have "step (After v) st s = Done None"
        by (cases f) (simp_all add: step_def after_step_def)
      with assms(1) show False by (simp add: run_stop)
    qed
  qed
  then obtain c r where sk: "skip_ws s = c # r"
    and c: "c = CHR '','' \<or> c = CHR '']'' \<or> c = CHR ''}''"
    by blast
  from sk obtain w where w: "blank w" "s = w @ c # r" by (rule skip_ws_split)
  show ?thesis
  proof (cases w)
    case Nil
    with w c show ?thesis by auto
  next
    case (Cons x xs)
    with w have "is_json_ws x" by (simp add: blank_def)
    with w Cons show ?thesis by simp
  qed
qed

text \<open>
  The parser, with an array at the bottom of its stack, on a text with plain literals
  that it reads to the end, the last character being the closing bracket: either only
  that bracket is left, or a token is read and the same holds for the rest.
\<close>

lemma first_token:
  assumes "run m st (t @ '']'') = Some (v, [])" "array_frame st"
    and "plain_from False False (t @ '']'')"
  obtains (last) acc v0 where "blank t" "m = After v0" "st = [FArr acc]"
      "v = JArray (rev (v0 # acc))"
    | (more) p la m' st' t' where "t = p @ t'" "token m st p la m' st'"
      "ahead la (t' @ '']'')" "run m' st' (t' @ '']'') = Some (v, [])" "array_frame st'"
      "plain_from False False (t' @ '']'')" "length t' < length t"
proof (cases "step m st (t @ '']'')")
  case (Done res)
  with assms(1) have "step m st (t @ '']'') = Done (Some (v, []))" by (simp add: run_stop)
  from step_done[OF this] assms(2) show ?thesis by (simp add: array_frame_def)
next
  case (Next m' st' s')
  with assms(1) have run': "run m' st' s' = Some (v, [])" by (simp add: run_next)
  from step_token[OF Next assms(3)] obtain p la where
    p: "t @ '']'' = p @ s'" "token m st p la m' st'" "la = Delimiter \<or> ahead la s'"
      "plain_from False False s'"
    by blast
  from assms(2) have "array_bound m st" by (simp add: array_bound_def)
  with Next have bound: "array_bound m' st'" by (rule step_bound)
  have la: "ahead la s'"
  proof (cases "la = Delimiter")
    case True
    with p(2) token_delimiter[of m st p m' st'] obtain v' where "st' = st" "m' = After v'"
      by auto
    moreover from assms(2) have "st \<noteq> []" by (simp add: array_frame_def)
    ultimately have "ahead Delimiter s'"
      using run' after_needs_delimiter[of v' st' s' "(v, [])"] by simp
    with True show ?thesis by simp
  next
    case False
    with p(3) show ?thesis by simp
  qed
  show ?thesis
  proof (cases "s' = []")
    case True
    with run' have e: "st' = []" "m' = After v" by (auto dest: run_empty)
    from True p(1) have pt: "p = t @ '']''" by simp
    from p(2) e assms(2) obtain w acc v0 where
      "blank w" "p = w @ '']''" "m = After v0" "st = [FArr acc]" "v = JArray (rev (v0 # acc))"
      by (cases rule: token.cases) (auto simp: array_frame_def)
    with pt last show ?thesis by simp
  next
    case False
    then have sl: "s' = butlast s' @ [last s']" by simp
    with p(1) have "t @ '']'' = (p @ butlast s') @ [last s']" by (metis append_assoc)
    then have "t = p @ butlast s'" "last s' = CHR '']''" by simp_all
    with sl obtain t' where t': "s' = t' @ '']''" "t = p @ t'" by metis
    have "st' \<noteq> []"
    proof
      assume "st' = []"
      with bound obtain va where "m' = After va" by (cases m') (auto simp: array_bound_def array_frame_def)
      with \<open>st' = []\<close> have "run m' st' s' = Some (va, s')"
        by (simp add: run_stop step_def after_step_def)
      with run' False show False by simp
    qed
    with bound have af: "array_frame st'" by (simp add: array_bound_def)
    from token_nonempty[OF p(2)] t'(2) have "length t' < length t" by (cases p) auto
    with t' p(2) la run' af p(4) more show ?thesis by simp
  qed
qed
subsection \<open>The counting loop on a cut array\<close>

lemma count_run:
  assumes "run m st (t @ '']'') = Some (v, [])" "array_frame st"
    and "plain_from False False (t @ '']'')" "clean k"
  shows "foldl count_step k t = moved k (1 - open_arrays st) (- open_objects m st)"
  using assms
proof (induction "length t" arbitrary: t m st k rule: less_induct)
  case less
  from less.prems(1-3) show ?case
  proof (cases rule: first_token)
    case (last acc v0)
    with less.prems(4) show ?thesis
      by (simp add: count_blank open_objects_def moved_simps)
  next
    case (more p la m' st' t')
    let ?k = "moved k (open_arrays st' - open_arrays st) (open_objects m' st' - open_objects m st)"
    from less.prems(4) have "clean ?k" by (simp add: moved_simps)
    from less.hyps[OF more(7,4,5,6) this]
    have "foldl count_step ?k t' = moved ?k (1 - open_arrays st') (- open_objects m' st')" .
    moreover from token_count[OF more(2) less.prems(4), of t'] more(1)
    have "foldl count_step k t = foldl count_step ?k t'" by simp
    ultimately show ?thesis by (simp add: moved_simps)
  qed
qed

subsection \<open>The commas of a cut array\<close>

text \<open>
  Behind every comma of the text the parser is about to read a value or a key, and reads
  the rest of the text to the end.
\<close>

lemma commas_run:
  assumes "run m st (t @ '']'') = Some (v, [])" "array_frame st"
    and "plain_from False False (t @ '']'')" "t = a @ CHR '','' # u"
  shows "\<exists>m' st'. reads_on m' \<and> array_frame st' \<and> run m' st' (u @ '']'') = Some (v, [])
           \<and> plain_from False False (u @ '']'')"
  using assms
proof (induction "length t" arbitrary: t m st a rule: less_induct)
  case less
  from less.prems(1-3) show ?case
  proof (cases rule: first_token)
    case (last acc v0)
    with less.prems(4) show ?thesis by (auto dest: blank_chars)
  next
    case (more p la m' st' t')
    from more(1) less.prems(4) have "p @ t' = a @ CHR '','' # u" by simp
    then obtain us where
      us: "(p = a @ us \<and> us @ t' = CHR '','' # u) \<or> (p @ us = a \<and> t' = us @ CHR '','' # u)"
      by (auto simp: append_eq_append_conv2)
    have "(\<exists>us. a = p @ us \<and> t' = us @ CHR '','' # u)
          \<or> (\<exists>us. p = a @ CHR '','' # us \<and> u = us @ t')"
    proof (cases "p @ us = a \<and> t' = us @ CHR '','' # u")
      case True
      then show ?thesis by auto
    next
      case False
      with us have 1: "p = a @ us" and 2: "us @ t' = CHR '','' # u" by simp_all
      show ?thesis
      proof (cases us)
        case Nil
        with 1 2 show ?thesis by simp
      next
        case (Cons x xs)
        with 1 2 show ?thesis by simp
      qed
    qed
    then consider (later) us where "a = p @ us" "t' = us @ CHR '','' # u"
      | (here) us where "p = a @ CHR '','' # us" "u = us @ t'"
      by blast
    then show ?thesis
    proof cases
      case later
      from less.hyps[OF more(7,4,5,6) later(2)] show ?thesis .
    next
      case here
      then have "CHR '','' \<in> set p" by simp
      from token_comma[OF more(2) this] have b: "blank (butlast p)" and r: "reads_on m'"
        by simp_all
      have "us = []"
      proof (rule ccontr)
        assume "us \<noteq> []"
        with here(1) have "butlast p = a @ CHR '','' # butlast us" by (simp add: butlast_append)
        with b show False by (auto dest: blank_chars)
      qed
      with here(2) have "u = t'" by simp
      with r more(4,5,6) show ?thesis by blast
    qed
  qed
qed

subsection \<open>The elements of a cut array are the first elements of the whole\<close>

lemma step_grows:
  assumes "grows acc0 m st" "step m st s = Next m' st' s'"
  shows "grows acc0 m' st'"
proof (cases m)
  case Value
  with assms(1) have ne: "st \<noteq> []" by (auto simp: grows_def split: if_splits)
  from assms(2) Value consider "st' = st" | "st' = FArr [] # st"
    unfolding step_def value_step_def by (auto split: list.splits if_splits option.splits)
  then show ?thesis using assms(1) ne by cases (simp_all add: grows_def)
next
  case (Key ms)
  with assms(1) have ne: "st \<noteq> []" by (auto simp: grows_def split: if_splits)
  from assms(2) Key obtain k where "st' = FObj ms k # st"
    unfolding step_def key_step_def by (auto split: list.splits if_splits option.splits)
  then show ?thesis using assms(1) ne by (simp add: grows_def)
next
  case (After v)
  show ?thesis
  proof (cases st)
    case Nil
    with assms(2) After show ?thesis by (simp add: step_def after_step_def)
  next
    case (Cons f st0)
    show ?thesis
    proof (cases f)
      case (FArr acc)
      with assms(2) After Cons consider
        (comma) "m' = Value" "st' = FArr (v # acc) # st0"
        | (close) "m' = After (JArray (rev (v # acc)))" "st' = st0"
        unfolding step_def after_step_def by (auto split: list.splits if_splits)
      then show ?thesis
      proof cases
        case comma
        show ?thesis
        proof (cases "st0 = []")
          case True
          with assms(1) Cons FArr obtain more where "rev acc = rev acc0 @ more"
            by (auto simp: grows_def)
          then have "rev (v # acc) = rev acc0 @ (more @ [v])" by simp
          with comma True show ?thesis unfolding grows_def by auto
        next
          case False
          with assms(1) Cons comma show ?thesis by (simp add: grows_def)
        qed
      next
        case close
        show ?thesis
        proof (cases "st0 = []")
          case True
          with assms(1) Cons FArr obtain more where "rev acc = rev acc0 @ more"
            by (auto simp: grows_def)
          then have "rev (v # acc) = rev acc0 @ (more @ [v])" by simp
          with close True show ?thesis unfolding grows_def by auto
        next
          case False
          with assms(1) Cons close show ?thesis by (simp add: grows_def)
        qed
      qed
    next
      case (FObj ms k)
      with assms(1) Cons have ne: "st0 \<noteq> []" by (auto simp: grows_def)
      from assms(2) After Cons FObj have "st' = st0"
        unfolding step_def after_step_def by (auto split: list.splits if_splits)
      with assms(1) Cons ne show ?thesis by (simp add: grows_def)
    qed
  qed
qed

lemma run_grows:
  "grows acc0 m st \<Longrightarrow> run m st s = Some (v, r) \<Longrightarrow> \<exists>more. v = JArray (rev acc0 @ more)"
proof (induction m st s rule: run.induct)
  case (1 m st s)
  show ?case
  proof (cases "step m st s")
    case (Done res)
    with "1.prems"(2) have "step m st s = Done (Some (v, r))" by (simp add: run_stop)
    from step_done[OF this] "1.prems"(1) show ?thesis by (simp add: grows_def)
  next
    case (Next m' st' s')
    with "1.prems"(2) have "run m' st' s' = Some (v, r)" by (simp add: run_next)
    moreover from "1.prems"(1) Next have "grows acc0 m' st'" by (rule step_grows)
    ultimately show ?thesis using "1.IH"[OF Next] by blast
  qed
qed

lemma prefix_run:
  assumes "run m st (t @ '']'') = Some (JArray vs, [])" "array_frame st"
    and "plain_from False False (t @ '']'')"
    and "run m st (t @ CHR '','' # x) = Some (v2, r2)"
  shows "\<exists>more. v2 = JArray (vs @ more)"
  using assms
proof (induction "length t" arbitrary: t m st rule: less_induct)
  case less
  from less.prems(1-3) show ?case
  proof (cases rule: first_token)
    case (last acc v0)
    from last(1) have "token (After v0) (FArr acc # []) (t @ '','') Anything Value (FArr (v0 # acc) # [])"
      by (rule token.next_element)
    from token_step[OF this, of x] last(2,3)
    have "step m st (t @ CHR '','' # x) = Next Value [FArr (v0 # acc)] x" by simp
    with less.prems(4) have "run Value [FArr (v0 # acc)] x = Some (v2, r2)"
      by (simp add: run_next)
    moreover have "grows (v0 # acc) Value [FArr (v0 # acc)]" by (simp add: grows_def)
    ultimately obtain more where "v2 = JArray (rev (v0 # acc) @ more)"
      using run_grows by blast
    with last(4) show ?thesis by simp
  next
    case (more p la m' st' t')
    from ahead_swap[OF more(3) token_lookahead[OF more(2)], of x]
    have "ahead la (t' @ CHR '','' # x)" .
    from token_step[OF more(2) this] more(1)
    have "step m st (t @ CHR '','' # x) = Next m' st' (t' @ CHR '','' # x)" by simp
    with less.prems(4) have "run m' st' (t' @ CHR '','' # x) = Some (v2, r2)"
      by (simp add: run_next)
    from less.hyps[OF more(7,4,5,6) this] show ?thesis .
  qed
qed

subsection \<open>No proper prefix of an array is an array\<close>

lemma run_extend:
  assumes "run m st s = Some (v, r)" "st \<noteq> [] \<or> m \<noteq> Value" "plain_from False False s"
  shows "run m st (s @ x) = Some (v, r @ x)"
  using assms
proof (induction m st s rule: run.induct)
  case (1 m st s)
  show ?case
  proof (cases "step m st s")
    case (Done res)
    with "1.prems"(1) have "step m st s = Done (Some (v, r))" by (simp add: run_stop)
    from step_done[OF this] have "st = []" "m = After v" "r = s" by simp_all
    then show ?thesis by (simp add: run_stop step_def after_step_def)
  next
    case (Next m' st' s')
    with "1.prems"(1) have run': "run m' st' s' = Some (v, r)" by (simp add: run_next)
    from step_token[OF Next "1.prems"(3)] obtain p la where
      p: "s = p @ s'" "token m st p la m' st'" "la = Delimiter \<or> ahead la s'"
        "plain_from False False s'"
      by blast
    have "ahead la s'"
    proof (cases "la = Delimiter")
      case True
      with p(2) token_delimiter[of m st p m' st'] obtain v' where
        "m = Value" "st' = st" "m' = After v'"
        by auto
      with "1.prems"(2) run' after_needs_delimiter[of v' st' s' "(v, r)"] True
      show ?thesis by simp
    next
      case False
      with p(3) show ?thesis by simp
    qed
    then have "ahead la (s' @ x)" by (rule ahead_extend)
    from token_step[OF p(2) this] p(1)
    have "step m st (s @ x) = Next m' st' (s' @ x)" by simp
    then have "run m st (s @ x) = run m' st' (s' @ x)" by (rule run_next)
    also have "\<dots> = Some (v, r @ x)"
      using "1.IH"[OF Next run' token_value_stack[OF p(2)] p(4)] .
    finally show ?thesis .
  qed
qed

lemma run_bracket:
  "run Value [] (CHR ''['' # s) =
     (case skip_ws s of
        [] \<Rightarrow> None
      | d # r \<Rightarrow> if d = CHR '']'' then Some (JArray [], r) else run Value [FArr []] s)"
proof (cases "skip_ws s")
  case Nil
  then show ?thesis
    by (simp add: run_stop step_def value_step_def skip_stop is_json_ws_def)
next
  case (Cons d r)
  show ?thesis
  proof (cases "d = CHR '']''")
    case True
    with Cons have "step Value [] (CHR ''['' # s) = Next (After (JArray [])) [] r"
      by (simp add: step_def value_step_def skip_stop is_json_ws_def)
    then have "run Value [] (CHR ''['' # s) = run (After (JArray [])) [] r" by (rule run_next)
    with Cons True show ?thesis by (simp add: run_stop step_def after_step_def)
  next
    case False
    with Cons have "step Value [] (CHR ''['' # s) = Next Value [FArr []] s"
      by (simp add: step_def value_step_def skip_stop is_json_ws_def)
    then have "run Value [] (CHR ''['' # s) = run Value [FArr []] s" by (rule run_next)
    with Cons False show ?thesis by simp
  qed
qed

lemma run_extend_bracket:
  assumes "run Value [] (CHR ''['' # s) = Some (v, r)" "plain_from False False s"
  shows "run Value [] (CHR ''['' # s @ x) = Some (v, r @ x)"
proof (cases "skip_ws s")
  case Nil
  with assms(1) show ?thesis by (simp add: run_bracket)
next
  case (Cons d r')
  from skip_ws_append[OF Cons] have sx: "skip_ws (s @ x) = d # r' @ x" .
  show ?thesis
  proof (cases "d = CHR '']''")
    case True
    with assms(1) Cons sx show ?thesis by (simp add: run_bracket)
  next
    case False
    with assms(1) Cons have "run Value [FArr []] s = Some (v, r)" by (simp add: run_bracket)
    from run_extend[OF this _ assms(2), of x] False sx show ?thesis
      by (simp add: run_bracket)
  qed
qed

lemma plain_prefix: "plain_from ins esc (s @ t) \<Longrightarrow> plain_from ins esc s"
  by (induction s arbitrary: ins esc) (auto split: if_splits)

lemma shorter_array_invalid:
  assumes "JSON_parse (CHR ''['' # s @ y) = Inr v" "\<not> blank y"
    and "plain_from False False s"
  shows "JSON_parse (CHR ''['' # s) = Inl SyntaxError"
proof (rule ccontr)
  assume "JSON_parse (CHR ''['' # s) \<noteq> Inl SyntaxError"
  then obtain w r where r: "run Value [] (CHR ''['' # s) = Some (w, r)"
    by (auto simp: JSON_parse_def split: option.splits if_splits)
  from run_extend_bracket[OF r assms(3), of y]
  have "run Value [] (CHR ''['' # s @ y) = Some (w, r @ y)" .
  with assms(1) have "skip_ws (r @ y) = []"
    by (auto simp: JSON_parse_def split: if_splits)
  then have "blank (r @ y)" by (rule skip_ws_nothing)
  with assms(2) show False by (simp add: blank_def)
qed
subsection \<open>Where the parser fails\<close>

lemma split_before:
  assumes "a @ c # b = u @ x" "c \<notin> set x"
  obtains b1 where "u = a @ c # b1" "b = b1 @ x"
proof -
  from assms(1) obtain us where
    us: "(a = u @ us \<and> us @ c # b = x) \<or> (a @ us = u \<and> c # b = us @ x)"
    by (auto simp: append_eq_append_conv2)
  have "a @ us = u \<and> c # b = us @ x"
  proof (rule ccontr)
    assume "\<not> ?thesis"
    with us have "us @ c # b = x" by simp
    then have "c \<in> set x" by auto
    with assms(2) show False by simp
  qed
  then have 1: "a @ us = u" and 2: "c # b = us @ x" by simp_all
  show ?thesis
  proof (cases us)
    case Nil
    with 2 assms(2) show ?thesis by auto
  next
    case (Cons y ys)
    with 1 2 that[of ys] show ?thesis by auto
  qed
qed

lemma split_first:
  assumes "a @ c # x = b @ c # y" "c \<notin> set a" "c \<notin> set b"
  shows "a = b \<and> x = y"
  using assms
proof (induction a arbitrary: b)
  case Nil
  then show ?case by (cases b) auto
next
  case (Cons d a)
  then show ?case by (cases b) auto
qed

lemma plain_behind_quote:
  "dq \<notin> set k \<Longrightarrow> plain_from ins esc (k @ dq # z) \<Longrightarrow> plain_from (\<not> ins) False z"
  by (induction k arbitrary: ins esc) (auto simp: dq_def split: if_splits)

lemma space_chars:
  assumes "is_space c"
  shows "c \<noteq> dq" "c \<noteq> CHR ''[''" "c \<noteq> CHR '']''" "c \<noteq> CHR ''{''" "c \<noteq> CHR ''}''"
    "c \<noteq> CHR '',''" "c \<noteq> CHR '':''" "c \<noteq> CHR ''-''" "\<not> is_digit c"
    "c \<noteq> CHR ''t''" "c \<noteq> CHR ''f''" "c \<noteq> CHR ''n''"
  using assms by (auto simp: is_space_def is_digit_def dq_def)

lemma no_scalar_at:
  assumes "c \<noteq> CHR ''-''" "\<not> is_digit c" "c \<noteq> CHR ''t''" "c \<noteq> CHR ''f''" "c \<noteq> CHR ''n''"
  shows "parse_scalar (c # r) = None"
proof -
  have "parse_number (c # r) = None"
  proof (cases "parse_number (c # r)")
    case (Some a)
    then obtain q r' where "parse_number (c # r) = Some (q, r')" by (cases a) auto
    from number_starts[OF this] assms(1,2) show ?thesis by simp
  qed simp
  with assms(3-5) show ?thesis by (simp add: parse_scalar_def)
qed

lemma no_value_at:
  assumes "blank w" "\<not> is_json_ws c" "c \<noteq> CHR ''[''" "c \<noteq> CHR ''{''" "c \<noteq> dq"
    and "c \<noteq> CHR ''-''" "\<not> is_digit c" "c \<noteq> CHR ''t''" "c \<noteq> CHR ''f''" "c \<noteq> CHR ''n''"
  shows "run Value st (w @ c # r) = None" "run (Key ms) st (w @ c # r) = None"
proof -
  from assms(1,2) have sk: "skip_ws (w @ c # r) = c # r" by (simp add: skip_blank skip_stop)
  from no_scalar_at[OF assms(6-10)] have "parse_scalar (c # r) = None" .
  with sk assms(3-5) have "step Value st (w @ c # r) = Done None"
    by (simp add: step_def value_step_def dq_def)
  then show "run Value st (w @ c # r) = None" by (rule run_stop)
  from sk assms(5) have "step (Key ms) st (w @ c # r) = Done None"
    by (simp add: step_def key_step_def dq_def)
  then show "run (Key ms) st (w @ c # r) = None" by (rule run_stop)
qed

text \<open>White space that is none of JSON's is no start of a value.\<close>

lemma reads_spaces:
  assumes "reads_on m" "run m st (w @ z) = Some res" "list_all is_space w"
  shows "blank w"
proof (rule ccontr)
  assume nb: "\<not> blank w"
  let ?a = "takeWhile is_json_ws w"
  have a: "blank ?a" by (auto simp: blank_def list_all_iff dest: set_takeWhileD)
  from nb have "dropWhile is_json_ws w \<noteq> []"
    by (auto simp: blank_def list_all_iff dropWhile_eq_Nil_conv)
  then obtain c r where d: "dropWhile is_json_ws w = c # r" by (cases "dropWhile is_json_ws w") auto
  then have c: "\<not> is_json_ws c" by (metis hd_dropWhile list.sel(1) list.distinct(1))
  have w: "w = ?a @ c # r" using d by (metis takeWhile_dropWhile_id)
  then have "c \<in> set w" by (metis in_set_conv_decomp)
  with assms(3) have sp: "is_space c" by (simp add: list_all_iff)
  from w have wz: "w @ z = ?a @ c # (r @ z)" by (metis append_Cons append_assoc)
  note n = no_value_at[OF a c space_chars(2,4,1,8,9,10,11,12)[OF sp]]
  have v: "run Value st (w @ z) = None" unfolding wz by (rule n(1))
  have k: "run (Key ms) st (w @ z) = None" for ms unfolding wz by (rule n(2))
  from assms(1) v k have "run m st (w @ z) = None"
    by (cases m) (simp_all add: reads_on_def)
  with assms(2) show False by simp
qed

lemma closer_is_no_value:
  assumes "reads_on m" "blank w"
  shows "run m st (w @ CHR '']'' # r) = None"
proof -
  have "\<not> is_json_ws CHR '']''" "\<not> is_digit CHR '']''" by (simp_all add: is_json_ws_def is_digit_def)
  from no_value_at[OF assms(2) this(1) _ _ _ _ this(2)]
  have "run Value st (w @ CHR '']'' # r) = None" "\<And>ms. run (Key ms) st (w @ CHR '']'' # r) = None"
    by (simp_all add: dq_def)
  with assms(1) show ?thesis by (cases m) (simp_all add: reads_on_def)
qed

lemma brace_is_no_key:
  assumes "blank w"
  shows "run (Key ms) st (w @ CHR ''{'' # r) = None"
proof -
  from assms have "skip_ws (w @ CHR ''{'' # r) = CHR ''{'' # r"
    by (simp add: skip_blank skip_stop is_json_ws_def)
  then have "step (Key ms) st (w @ CHR ''{'' # r) = Done None"
    by (simp add: step_def key_step_def)
  then show ?thesis by (rule run_stop)
qed

lemma unclosed_string:
  assumes "reads_on m" "blank w" "dq \<notin> set v"
  shows "run m st (w @ dq # v) = None"
proof -
  from assms(2) have sk: "skip_ws (w @ dq # v) = dq # v"
    by (simp add: skip_blank skip_stop is_json_ws_def dq_def)
  from string_needs_quote[OF assms(3)] have ps: "parse_string_chars v [] = None" .
  from sk ps have "step Value st (w @ dq # v) = Done None"
    by (simp add: step_def value_step_def dq_def)
  moreover from sk ps have "step (Key ms) st (w @ dq # v) = Done None" for ms
    by (simp add: step_def key_step_def dq_def)
  ultimately show ?thesis
    using assms(1) by (cases m) (simp_all add: reads_on_def run_stop)
qed

lemma string_read:
  assumes "dq \<notin> set k" "plain_from True False (k @ dq # z)"
  shows "parse_string_chars (k @ dq # z) [] = None
         \<or> (\<exists>kk. parse_string_chars (k @ dq # z) [] = Some (kk, z))"
proof (cases "parse_string_chars (k @ dq # z) []")
  case None
  then show ?thesis by simp
next
  case (Some a)
  then obtain kk r where ps: "parse_string_chars (k @ dq # z) [] = Some (kk, r)" by (cases a) auto
  from string_body[OF ps assms(2)] obtain b kb where b: "k @ dq # z = b @ dq # r" "lit_body b kb"
    by blast
  from body_chars[OF b(2)] have "dq \<notin> set b" by simp
  from split_first[OF b(1) assms(1) this] ps show ?thesis by simp
qed

lemma colon_behind_element:
  assumes "st \<noteq> []" "blank w" "dq \<notin> set k"
    and "plain_from False False (w @ dq # k @ dq # CHR '':'' # z)"
  shows "run Value st (w @ dq # k @ dq # CHR '':'' # z) = None"
proof -
  let ?z = "CHR '':'' # z"
  from assms(2) have sk: "skip_ws (w @ dq # k @ dq # ?z) = dq # k @ dq # ?z"
    by (simp add: skip_blank skip_stop is_json_ws_def dq_def)
  from assms(2,4) have "plain_from True False (k @ dq # ?z)" by (simp add: plain_blank dq_def)
  from string_read[OF assms(3) this] show ?thesis
  proof
    assume "parse_string_chars (k @ dq # ?z) [] = None"
    with sk have "step Value st (w @ dq # k @ dq # ?z) = Done None"
      by (simp add: step_def value_step_def dq_def)
    then show ?thesis by (rule run_stop)
  next
    assume "\<exists>kk. parse_string_chars (k @ dq # ?z) [] = Some (kk, ?z)"
    then obtain kk where "parse_string_chars (k @ dq # ?z) [] = Some (kk, ?z)" by blast
    with sk have "step Value st (w @ dq # k @ dq # ?z) = Next (After (JString kk)) st ?z"
      by (simp add: step_def value_step_def dq_def)
    then have "run Value st (w @ dq # k @ dq # ?z) = run (After (JString kk)) st ?z"
      by (rule run_next)
    moreover from assms(1) obtain f st0 where "st = f # st0" by (cases st) auto
    then have "step (After (JString kk)) st ?z = Done None"
      by (cases f) (simp_all add: step_def after_step_def skip_stop is_json_ws_def)
    then have "run (After (JString kk)) st ?z = None" by (rule run_stop)
    ultimately show ?thesis by simp
  qed
qed

lemma value_behind_key:
  assumes "run (Key ms) st (w @ dq # k @ dq # CHR '':'' # z) = Some res" "blank w" "dq \<notin> set k"
    and "plain_from False False (w @ dq # k @ dq # CHR '':'' # z)"
  shows "\<exists>kk. run Value (FObj ms kk # st) z = Some res"
proof -
  let ?z = "CHR '':'' # z"
  from assms(2) have sk: "skip_ws (w @ dq # k @ dq # ?z) = dq # k @ dq # ?z"
    by (simp add: skip_blank skip_stop is_json_ws_def dq_def)
  from assms(2,4) have "plain_from True False (k @ dq # ?z)" by (simp add: plain_blank dq_def)
  from string_read[OF assms(3) this] show ?thesis
  proof
    assume "parse_string_chars (k @ dq # ?z) [] = None"
    with sk have "step (Key ms) st (w @ dq # k @ dq # ?z) = Done None"
      by (simp add: step_def key_step_def dq_def)
    with assms(1) show ?thesis by (simp add: run_stop)
  next
    assume "\<exists>kk. parse_string_chars (k @ dq # ?z) [] = Some (kk, ?z)"
    then obtain kk where "parse_string_chars (k @ dq # ?z) [] = Some (kk, ?z)" by blast
    with sk have "step (Key ms) st (w @ dq # k @ dq # ?z) = Next Value (FObj ms kk # st) z"
      by (simp add: step_def key_step_def dq_def skip_stop is_json_ws_def)
    with assms(1) show ?thesis by (auto simp: run_next)
  qed
qed

text \<open>Every open array needs a closing bracket, every open object a closing brace.\<close>

lemma token_closers:
  assumes "token m st p la m' st'"
  shows "open_arrays st \<le> open_arrays st' + int (count_list p CHR '']'')"
    and "open_objects m st \<le> open_objects m' st' + int (count_list p CHR ''}'')"
  using assms by (cases rule: token.cases; simp add: open_objects_def)+

lemma run_closers:
  assumes "run m st s = Some res" "st \<noteq> [] \<or> m \<noteq> Value" "plain_from False False s"
  shows "open_arrays st \<le> int (count_list s CHR '']'')
         \<and> open_objects m st \<le> int (count_list s CHR ''}'')"
  using assms
proof (induction m st s rule: run.induct)
  case (1 m st s)
  show ?case
  proof (cases "step m st s")
    case (Done r)
    with "1.prems"(1) have "step m st s = Done (Some res)" by (simp add: run_stop)
    from step_done[OF this] show ?thesis by (simp add: open_objects_def)
  next
    case (Next m' st' s')
    with "1.prems"(1) have run': "run m' st' s' = Some res" by (simp add: run_next)
    from step_token[OF Next "1.prems"(3)] obtain p la where
      p: "s = p @ s'" "token m st p la m' st'" "plain_from False False s'"
      by blast
    from "1.IH"[OF Next run' token_value_stack[OF p(2)] p(3)] token_closers[OF p(2)] p(1)
    show ?thesis by simp
  qed
qed

lemma open_frames_nonneg: "0 \<le> open_frames st"
  by (induction st rule: open_frames.induct) simp_all

lemma array_frame_open: "array_frame st \<Longrightarrow> 1 \<le> open_arrays st"
proof (induction st)
  case Nil
  then show ?case by (simp add: array_frame_def)
next
  case (Cons f st)
  show ?case
  proof (cases "st = []")
    case True
    with Cons.prems show ?thesis by (cases f) (simp_all add: array_frame_def)
  next
    case False
    with Cons.prems have "array_frame st" by (simp add: array_frame_def)
    from Cons.IH[OF this] show ?thesis by (cases f) simp_all
  qed
qed

lemma open_array_needs_closer:
  assumes "run Value st (w @ CHR ''['' # v @ '']'') = Some res" "blank w" "st \<noteq> []"
    and "plain_from False False (v @ '']'')"
  shows "open_arrays st + 1 \<le> int (count_list (v @ '']'') CHR '']'')"
proof -
  let ?r = "v @ '']''"
  have "skip_ws ?r \<noteq> []"
  proof
    assume "skip_ws ?r = []"
    then have "blank ?r" by (rule skip_ws_nothing)
    then show False by (simp add: blank_def is_json_ws_def)
  qed
  then obtain d r' where sk2: "skip_ws ?r = d # r'" by (cases "skip_ws ?r") auto
  from assms(2) have sk: "skip_ws (w @ CHR ''['' # ?r) = CHR ''['' # ?r"
    by (simp add: skip_blank skip_stop is_json_ws_def)
  show ?thesis
  proof (cases "d = CHR '']''")
    case False
    with sk sk2 have "step Value st (w @ CHR ''['' # ?r) = Next Value (FArr [] # st) ?r"
      by (simp add: step_def value_step_def)
    with assms(1) have "run Value (FArr [] # st) ?r = Some res" by (simp add: run_next)
    from run_closers[OF this _ assms(4)] show ?thesis by simp
  next
    case True
    from sk2 obtain w' where w': "blank w'" "?r = w' @ d # r'" by (rule skip_ws_split)
    from sk sk2 True have "step Value st (w @ CHR ''['' # ?r) = Next (After (JArray [])) st r'"
      by (simp add: step_def value_step_def)
    with assms(1) have run': "run (After (JArray [])) st r' = Some res" by (simp add: run_next)
    from assms(4) w' True have "plain_from False False r'" by (simp add: plain_blank dq_def)
    from run_closers[OF run' _ this] have "open_arrays st \<le> int (count_list r' CHR '']'')"
      by simp
    moreover have "count_list ?r CHR '']'' = count_list w' CHR '']'' + (1 + count_list r' CHR '']'')"
      using w'(2) True by simp
    ultimately show ?thesis by simp
  qed
qed

lemma open_object_needs_closer:
  assumes "run Value st (w @ CHR ''{'' # v @ '']'') = Some res" "blank w"
    and "plain_from False False (v @ '']'')"
  shows "CHR ''}'' \<in> set v"
proof (rule ccontr)
  assume nv: "CHR ''}'' \<notin> set v"
  let ?r = "v @ '']''"
  have "skip_ws ?r \<noteq> []"
  proof
    assume "skip_ws ?r = []"
    then have "blank ?r" by (rule skip_ws_nothing)
    then show False by (simp add: blank_def is_json_ws_def)
  qed
  then obtain d r' where sk2: "skip_ws ?r = d # r'" by (cases "skip_ws ?r") auto
  then obtain w' where "?r = w' @ d # r'" by (rule skip_ws_split)
  then have "d \<in> set ?r" by (metis in_set_conv_decomp)
  with nv have d: "d \<noteq> CHR ''}''" by auto
  from assms(2) have sk: "skip_ws (w @ CHR ''{'' # ?r) = CHR ''{'' # ?r"
    by (simp add: skip_blank skip_stop is_json_ws_def)
  with sk2 d have "step Value st (w @ CHR ''{'' # ?r) = Next (Key []) st ?r"
    by (simp add: step_def value_step_def)
  with assms(1) have "run (Key []) st ?r = Some res" by (simp add: run_next)
  from run_closers[OF this _ assms(3)] open_frames_nonneg[of st]
  have "1 \<le> int (count_list ?r CHR ''}'')"
    by (simp add: open_objects_def)
  with nv show False by (simp add: count_notin)
qed
subsection \<open>The trim patterns find nothing behind a complete element\<close>

lemma here_shape: "rx_here rx s = Some m \<Longrightarrow> shape rx s"
proof (induction rx s arbitrary: m rule: rx_here.induct)
  case (1 s)
  show ?case by simp
next
  case (2 as s)
  then show ?case by (auto split: if_splits)
next
  case (3 p as)
  then show ?case by simp
next
  case (4 p as c cs)
  then show ?case by (auto split: if_splits)
next
  case (5 p as)
  from "5.prems" have "rx_here as [] = Some m" by simp
  from "5.IH"[OF this] show ?case by simp
next
  case (6 p as c cs)
  show ?case
  proof (cases "p c \<and> rx_here (Many p # as) cs \<noteq> None")
    case True
    then obtain m' where m': "rx_here (Many p # as) cs = Some m'" by auto
    from True "6.IH"(1)[OF _ m'] obtain w t where "cs = w @ t" "list_all p w" "shape as t"
      by auto
    with True have "c # cs = (c # w) @ t" "list_all p (c # w)" by simp_all
    with \<open>shape as t\<close> show ?thesis unfolding shape.simps by blast
  next
    case False
    then have n: "(if p c then rx_here (Many p # as) cs else None) = None" by auto
    with "6.prems" have "rx_here as (c # cs) = Some m" by simp
    from "6.IH"(2)[OF n this] have "shape as (c # cs)" .
    then have "c # cs = [] @ c # cs \<and> list_all p [] \<and> shape as (c # cs)" by simp
    then show ?thesis unfolding shape.simps by blast
  qed
qed

lemma not_all: "list_all (\<lambda>x. x \<noteq> c) v \<Longrightarrow> c \<notin> set v"
  by (auto simp: list_all_iff)

lemma tail1_shape:
  assumes "rx_here [ws_star, chr dq, not_star dq, Eoi] y \<noteq> None"
  obtains w v where "y = w @ dq # v" "list_all is_space w" "dq \<notin> set v"
proof -
  from assms obtain m where "rx_here [ws_star, chr dq, not_star dq, Eoi] y = Some m" by auto
  from here_shape[OF this] obtain w v where
    "y = w @ dq # v" "list_all is_space w" "list_all (\<lambda>x. x \<noteq> dq) v"
    by (auto simp: ws_star_def chr_def not_star_def)
  with that show ?thesis by (auto dest: not_all)
qed

lemma key_shape:
  assumes "shape (ws_star # chr dq # not_star dq # chr dq # chr CHR '':'' # ws_star # rx) y"
  obtains w k w2 t where "y = (w @ dq # k @ dq # CHR '':'' # w2) @ t"
    "list_all is_space w" "dq \<notin> set k" "list_all is_space w2" "shape rx t"
proof -
  from assms obtain w k w2 t where
    "y = w @ dq # k @ dq # CHR '':'' # w2 @ t" "list_all is_space w"
    "list_all (\<lambda>x. x \<noteq> dq) k" "list_all is_space w2" "shape rx t"
    by (auto simp: ws_star_def chr_def not_star_def)
  then have "y = (w @ dq # k @ dq # CHR '':'' # w2) @ t" "dq \<notin> set k"
    by (auto dest: not_all)
  with \<open>list_all is_space w\<close> \<open>list_all is_space w2\<close> \<open>shape rx t\<close> that show ?thesis by blast
qed

lemma tail2_shape:
  assumes "rx_here [ws_star, chr dq, not_star dq, chr dq, chr CHR '':'', ws_star,
                    chr dq, not_star dq, Eoi] y \<noteq> None"
  obtains w k w2 v where "y = (w @ dq # k @ dq # CHR '':'' # w2) @ dq # v"
    "list_all is_space w" "dq \<notin> set k" "list_all is_space w2" "dq \<notin> set v"
proof -
  from assms obtain m where "rx_here [ws_star, chr dq, not_star dq, chr dq, chr CHR '':'', ws_star,
                    chr dq, not_star dq, Eoi] y = Some m" by auto
  from here_shape[OF this] obtain w k w2 t where
    k: "y = (w @ dq # k @ dq # CHR '':'' # w2) @ t"
      "list_all is_space w" "dq \<notin> set k" "list_all is_space w2"
    and t: "shape [chr dq, not_star dq, Eoi] t"
    by (rule key_shape)
  from t obtain v where "t = dq # v" "list_all (\<lambda>x. x \<noteq> dq) v"
    by (auto simp: chr_def not_star_def)
  with k that show ?thesis by (auto dest: not_all)
qed

lemma tail3_shape:
  assumes "rx_here [ws_star, chr dq, not_star dq, chr dq, chr CHR '':'', ws_star,
                    chr CHR ''['', not_star CHR '']'', Eoi] y \<noteq> None"
  obtains w k w2 v where "y = (w @ dq # k @ dq # CHR '':'' # w2) @ CHR ''['' # v"
    "list_all is_space w" "dq \<notin> set k" "list_all is_space w2" "CHR '']'' \<notin> set v"
proof -
  from assms obtain m where "rx_here [ws_star, chr dq, not_star dq, chr dq, chr CHR '':'', ws_star,
                    chr CHR ''['', not_star CHR '']'', Eoi] y = Some m" by auto
  from here_shape[OF this] obtain w k w2 t where
    k: "y = (w @ dq # k @ dq # CHR '':'' # w2) @ t"
      "list_all is_space w" "dq \<notin> set k" "list_all is_space w2"
    and t: "shape [chr CHR ''['', not_star CHR '']'', Eoi] t"
    by (rule key_shape)
  from t obtain v where "t = CHR ''['' # v" "list_all (\<lambda>x. x \<noteq> CHR '']'') v"
    by (auto simp: chr_def not_star_def)
  with k that show ?thesis by (auto dest: not_all)
qed

lemma tail4_shape:
  assumes "rx_here [ws_star, chr dq, not_star dq, chr dq, chr CHR '':'', ws_star, Eoi] y \<noteq> None"
  obtains w k w2 where "y = w @ dq # k @ dq # CHR '':'' # w2"
    "list_all is_space w" "dq \<notin> set k" "list_all is_space w2"
proof -
  from assms obtain m where
    "rx_here [ws_star, chr dq, not_star dq, chr dq, chr CHR '':'', ws_star, Eoi] y = Some m"
    by auto
  from here_shape[OF this] obtain w k w2 t where
    k: "y = (w @ dq # k @ dq # CHR '':'' # w2) @ t"
      "list_all is_space w" "dq \<notin> set k" "list_all is_space w2"
    and t: "shape [Eoi] t"
    by (rule key_shape)
  from t have "t = []" by simp
  with k that show ?thesis by auto
qed

lemma tail5_shape:
  assumes "rx_here [ws_star, Eoi] y \<noteq> None"
  shows "list_all is_space y"
proof -
  from assms obtain m where "rx_here [ws_star, Eoi] y = Some m" by auto
  from here_shape[OF this] show ?thesis by (auto simp: ws_star_def)
qed

lemma tail6_shape:
  assumes "rx_here [ws_star, chr CHR ''{'', not_star CHR ''}'', Eoi] y \<noteq> None"
  obtains w v where "y = w @ CHR ''{'' # v" "list_all is_space w" "CHR ''}'' \<notin> set v"
proof -
  from assms obtain m where "rx_here [ws_star, chr CHR ''{'', not_star CHR ''}'', Eoi] y = Some m"
    by auto
  from here_shape[OF this] obtain w v where
    "y = w @ CHR ''{'' # v" "list_all is_space w" "list_all (\<lambda>x. x \<noteq> CHR ''}'') v"
    by (auto simp: ws_star_def chr_def not_star_def)
  with that show ?thesis by (auto dest: not_all)
qed

text \<open>
  An incomplete string, behind a comma and white space: the parser would find no
  closing quote.
\<close>

lemma no_trim1:
  assumes "value_follows u" "dq \<notin> set x"
  shows "rx_here [ws_star, chr dq, not_star dq, Eoi] (u @ x) = None"
proof (rule ccontr)
  assume "\<not> ?thesis"
  then obtain w v where y: "u @ x = w @ dq # v" "list_all is_space w" "dq \<notin> set v"
    by (rule tail1_shape)
  from y(1) assms(2) obtain v1 where u: "u = w @ dq # v1" "v = v1 @ x"
    by (metis split_before)
  from assms(1) obtain m st res where g: "reads_on m" "run m st (u @ '']'') = Some res"
    unfolding value_follows_def by blast
  from g(2) u have r: "run m st (w @ dq # v1 @ '']'') = Some res" by simp
  from reads_spaces[OF g(1) r y(2)] have "blank w" .
  moreover from y(3) u(2) have "dq \<notin> set (v1 @ '']'')" by (simp add: dq_def)
  ultimately have "run m st (w @ dq # v1 @ '']'') = None"
    using g(1) by (intro unclosed_string)
  with r show False by simp
qed

text \<open>A key and what follows its colon: an incomplete string, an open array, nothing.\<close>

lemma behind_key:
  assumes "value_follows (w @ dq # k @ dq # CHR '':'' # z)" "list_all is_space w" "dq \<notin> set k"
  obtains ms st kk res where "array_frame st" "run Value (FObj ms kk # st) (z @ '']'') = Some res"
    "plain_from False False (z @ '']'')"
proof -
  let ?u = "w @ dq # k @ dq # CHR '':'' # z"
  from assms(1) obtain m st res where g: "reads_on m" "array_frame st"
    "plain_from False False (?u @ '']'')" "run m st (?u @ '']'') = Some res"
    unfolding value_follows_def by blast
  from g(4) have r: "run m st (w @ dq # k @ dq # CHR '':'' # z @ '']'') = Some res" by simp
  from reads_spaces[OF g(1) r assms(2)] have bw: "blank w" .
  from g(3) have pl: "plain_from False False (w @ dq # k @ dq # CHR '':'' # z @ '']'')" by simp
  from g(2) have ne: "st \<noteq> []" by (simp add: array_frame_def)
  have "plain_from True False (k @ dq # CHR '':'' # z @ '']'')"
    using pl bw by (simp add: plain_blank dq_def)
  from plain_behind_quote[OF assms(3) this] have pz: "plain_from False False (z @ '']'')"
    by (simp add: dq_def)
  show ?thesis
  proof (cases m)
    case Value
    with r colon_behind_element[OF ne bw assms(3) pl] show ?thesis by simp
  next
    case (Key ms)
    with r value_behind_key[OF _ bw assms(3) pl] obtain kk where
      "run Value (FObj ms kk # st) (z @ '']'') = Some res"
      by blast
    with g(2) pz that show ?thesis by blast
  next
    case (After v)
    with g(1) show ?thesis by (simp add: reads_on_def)
  qed
qed

lemma no_trim2:
  assumes "value_follows u" "dq \<notin> set x"
  shows "rx_here [ws_star, chr dq, not_star dq, chr dq, chr CHR '':'', ws_star,
                  chr dq, not_star dq, Eoi] (u @ x) = None"
proof (rule ccontr)
  assume "\<not> ?thesis"
  then obtain w k w2 v where y: "u @ x = (w @ dq # k @ dq # CHR '':'' # w2) @ dq # v"
    "list_all is_space w" "dq \<notin> set k" "list_all is_space w2" "dq \<notin> set v"
    by (rule tail2_shape)
  from y(1) assms(2) obtain v1 where u: "u = (w @ dq # k @ dq # CHR '':'' # w2) @ dq # v1"
    "v = v1 @ x"
    by (metis split_before)
  from assms(1) u(1) have "value_follows (w @ dq # k @ dq # CHR '':'' # (w2 @ dq # v1))" by simp
  from this y(2,3) obtain ms st kk res where
    r: "run Value (FObj ms kk # st) ((w2 @ dq # v1) @ '']'') = Some res"
    by (rule behind_key)
  then have r': "run Value (FObj ms kk # st) (w2 @ dq # v1 @ '']'') = Some res" by simp
  have ro: "reads_on Value" by (simp add: reads_on_def)
  from reads_spaces[OF ro r' y(4)] have "blank w2" .
  moreover from y(5) u(2) have "dq \<notin> set (v1 @ '']'')" by (simp add: dq_def)
  ultimately have "run Value (FObj ms kk # st) (w2 @ dq # v1 @ '']'') = None"
    using ro by (intro unclosed_string)
  with r' show False by simp
qed

lemma no_trim3:
  assumes "value_follows u" "CHR ''['' \<notin> set x"
  shows "rx_here [ws_star, chr dq, not_star dq, chr dq, chr CHR '':'', ws_star,
                  chr CHR ''['', not_star CHR '']'', Eoi] (u @ x) = None"
proof (rule ccontr)
  assume "\<not> ?thesis"
  then obtain w k w2 v where y: "u @ x = (w @ dq # k @ dq # CHR '':'' # w2) @ CHR ''['' # v"
    "list_all is_space w" "dq \<notin> set k" "list_all is_space w2" "CHR '']'' \<notin> set v"
    by (rule tail3_shape)
  from y(1) assms(2) obtain v1 where u: "u = (w @ dq # k @ dq # CHR '':'' # w2) @ CHR ''['' # v1"
    "v = v1 @ x"
    by (metis split_before)
  from assms(1) u(1) have "value_follows (w @ dq # k @ dq # CHR '':'' # (w2 @ CHR ''['' # v1))"
    by simp
  from this y(2,3) obtain ms st kk res where af: "array_frame st"
    and r: "run Value (FObj ms kk # st) ((w2 @ CHR ''['' # v1) @ '']'') = Some res"
    and pl: "plain_from False False ((w2 @ CHR ''['' # v1) @ '']'')"
    by (rule behind_key)
  from r have r': "run Value (FObj ms kk # st) (w2 @ CHR ''['' # v1 @ '']'') = Some res" by simp
  have ro: "reads_on Value" by (simp add: reads_on_def)
  from reads_spaces[OF ro r' y(4)] have bw: "blank w2" .
  with pl have "plain_from False False (v1 @ '']'')" by (simp add: plain_blank dq_def)
  from open_array_needs_closer[OF r' bw _ this]
  have "open_arrays (FObj ms kk # st) + 1 \<le> int (count_list (v1 @ '']'') CHR '']'')" by simp
  moreover from y(5) u(2) have "count_list (v1 @ '']'') CHR '']'' = 1" by (simp add: count_notin)
  ultimately show False using array_frame_open[OF af] by simp
qed

lemma no_trim4:
  assumes "value_follows u"
  shows "rx_here [ws_star, chr dq, not_star dq, chr dq, chr CHR '':'', ws_star, Eoi] u = None"
proof (rule ccontr)
  assume "\<not> ?thesis"
  then obtain w k w2 where y: "u = w @ dq # k @ dq # CHR '':'' # w2"
    "list_all is_space w" "dq \<notin> set k" "list_all is_space w2"
    by (rule tail4_shape)
  from assms y(1) have "value_follows (w @ dq # k @ dq # CHR '':'' # w2)" by simp
  from this y(2,3) obtain ms st kk res where
    r: "run Value (FObj ms kk # st) (w2 @ '']'') = Some res"
    by (rule behind_key)
  have ro: "reads_on Value" by (simp add: reads_on_def)
  from reads_spaces[OF ro r y(4)] have "blank w2" .
  from closer_is_no_value[OF ro this, of "FObj ms kk # st" "[]"] r show False by simp
qed

lemma no_trim5:
  assumes "value_follows u"
  shows "rx_here [ws_star, Eoi] u = None"
proof (rule ccontr)
  assume "\<not> ?thesis"
  then have sp: "list_all is_space u" by (rule tail5_shape)
  from assms obtain m st res where g: "reads_on m" "run m st (u @ '']'') = Some res"
    unfolding value_follows_def by blast
  from reads_spaces[OF g sp] have "blank u" .
  from closer_is_no_value[OF g(1) this, of st "[]"] g(2) show False by simp
qed

lemma no_trim6:
  assumes "value_follows u" "CHR ''{'' \<notin> set x"
  shows "rx_here [ws_star, chr CHR ''{'', not_star CHR ''}'', Eoi] (u @ x) = None"
proof (rule ccontr)
  assume "\<not> ?thesis"
  then obtain w v where y: "u @ x = w @ CHR ''{'' # v" "list_all is_space w" "CHR ''}'' \<notin> set v"
    by (rule tail6_shape)
  from y(1) assms(2) obtain v1 where u: "u = w @ CHR ''{'' # v1" "v = v1 @ x"
    by (metis split_before)
  from assms(1) obtain m st res where g: "reads_on m" "run m st (u @ '']'') = Some res"
    "plain_from False False (u @ '']'')"
    unfolding value_follows_def by blast
  from g(2) u have r: "run m st (w @ CHR ''{'' # v1 @ '']'') = Some res" by simp
  from reads_spaces[OF g(1) r y(2)] have bw: "blank w" .
  from g(3) u bw have pl: "plain_from False False (v1 @ '']'')" by (simp add: plain_blank dq_def)
  show False
  proof (cases m)
    case Value
    with r open_object_needs_closer[OF _ bw pl] have "CHR ''}'' \<in> set v1" by blast
    with y(3) u(2) show ?thesis by simp
  next
    case (Key ms)
    with r brace_is_no_key[OF bw] show ?thesis by simp
  next
    case (After v)
    with g(1) show ?thesis by (simp add: reads_on_def)
  qed
qed

subsection \<open>The six replacements\<close>

lemma search_behind_commas:
  assumes "\<And>a u. s = a @ CHR '','' # u \<Longrightarrow> rx_here rx u = None"
  shows "rx_search (chr CHR '','' # rx) s = None"
  using assms
proof (induction s)
  case Nil
  show ?case by (simp add: chr_def)
next
  case (Cons c s)
  have here: "rx_here (chr CHR '','' # rx) (c # s) = None"
  proof (cases "c = CHR '',''")
    case True
    with Cons.prems[of "[]" s] show ?thesis by (simp add: chr_def)
  next
    case False
    then show ?thesis by (simp add: chr_def)
  qed
  have "rx_search (chr CHR '','' # rx) s = None"
  proof (rule Cons.IH)
    fix a u
    assume "s = a @ CHR '','' # u"
    then have "c # s = (c # a) @ CHR '','' # u" by simp
    then show "rx_here rx u = None" by (rule Cons.prems)
  qed
  with here show ?case by simp
qed

lemma replace_behind_commas:
  assumes "\<And>a u. s = a @ CHR '','' # u \<Longrightarrow> rx_here rx u = None"
  shows "js_replace (chr CHR '','' # rx) [] s = s"
  using search_behind_commas[OF assms] by (simp add: js_replace_def)

text \<open>The commas of a text with a comma and white space at its end.\<close>

lemma commas_of_extended:
  assumes "s @ CHR '','' # w = a @ CHR '','' # u" "CHR '','' \<notin> set w"
  shows "(a = s \<and> u = w) \<or> (\<exists>u1. s = a @ CHR '','' # u1 \<and> u = u1 @ CHR '','' # w)"
proof -
  from assms(1) obtain us where
    us: "(s = a @ us \<and> us @ CHR '','' # w = CHR '','' # u)
         \<or> (s @ us = a \<and> CHR '','' # w = us @ CHR '','' # u)"
    by (auto simp: append_eq_append_conv2)
  show ?thesis
  proof (cases "s = a @ us \<and> us @ CHR '','' # w = CHR '','' # u")
    case True
    then show ?thesis by (cases us) auto
  next
    case False
    with us have 1: "s @ us = a" and 2: "CHR '','' # w = us @ CHR '','' # u" by simp_all
    show ?thesis
    proof (cases us)
      case Nil
      with 1 2 show ?thesis by simp
    next
      case (Cons y ys)
      with 2 have "w = ys @ CHR '','' # u" by simp
      with assms(2) show ?thesis by simp
    qed
  qed
qed

lemma drop_spaces: "list_all P a \<Longrightarrow> \<not> P c \<Longrightarrow> dropWhile P (a @ c # b) = c # b"
  by (induction a) auto

lemma no_trim4_before_comma:
  assumes "list_all is_space w"
  shows "rx_here [ws_star, chr dq, not_star dq, chr dq, chr CHR '':'', ws_star, Eoi]
           (u @ CHR '','' # w) = None"
proof (rule ccontr)
  assume "\<not> ?thesis"
  then obtain w1 k w2 where y: "u @ CHR '','' # w = w1 @ dq # k @ dq # CHR '':'' # w2"
    "list_all is_space w2"
    by (rule tail4_shape)
  have sp: "\<not> is_space CHR '',''" "\<not> is_space CHR '':''" by (simp_all add: is_space_def)
  from assms have "list_all is_space (rev w)" by (simp add: list_all_iff)
  from drop_spaces[OF this sp(1), of "rev u"]
  have 1: "dropWhile is_space (rev (u @ CHR '','' # w)) = CHR '','' # rev u" by simp
  from y(2) have "list_all is_space (rev w2)" by (simp add: list_all_iff)
  from drop_spaces[OF this sp(2), of "rev (w1 @ dq # k @ [dq])"]
  have 2: "dropWhile is_space (rev (w1 @ dq # k @ dq # CHR '':'' # w2))
           = CHR '':'' # rev (w1 @ dq # k @ [dq])" by simp
  from 1 2 y(1) show False by simp
qed

lemma spaces_match: "list_all is_space w \<Longrightarrow> rx_here [Many is_space, Eoi] w = Some w"
  by (induction w) auto

lemma search_last_comma:
  assumes "list_all is_space w"
  shows "rx_search [chr CHR '','', ws_star, Eoi] (s @ CHR '','' # w) = Some (s, CHR '','' # w, [])"
proof (induction s)
  case Nil
  from spaces_match[OF assms] show ?case by (simp add: chr_def ws_star_def)
next
  case (Cons c s)
  have "rx_here [ws_star, Eoi] (s @ CHR '','' # w) = None"
  proof (rule ccontr)
    assume "\<not> ?thesis"
    then have "list_all is_space (s @ CHR '','' # w)" by (rule tail5_shape)
    then show False by (simp add: is_space_def)
  qed
  then have "rx_here [chr CHR '','', ws_star, Eoi] (c # s @ CHR '','' # w) = None"
    by (simp add: chr_def)
  with Cons show ?case by simp
qed

text \<open>
  A text all of whose commas are followed by a value: nothing is trimmed; with a comma
  and white space behind it, only these are.
\<close>

lemma trim_tail_complete:
  assumes "\<And>a u. s = a @ CHR '','' # u \<Longrightarrow> value_follows u"
  shows "trim_tail s = s"
proof -
  have 1: "js_replace rx_trim1 [] s = s"
    unfolding rx_trim1_def using no_trim1[OF assms, of _ _ "[]"]
    by (intro replace_behind_commas) simp
  have 2: "js_replace rx_trim2 [] s = s"
    unfolding rx_trim2_def using no_trim2[OF assms, of _ _ "[]"]
    by (intro replace_behind_commas) simp
  have 3: "js_replace rx_trim3 [] s = s"
    unfolding rx_trim3_def using no_trim3[OF assms, of _ _ "[]"]
    by (intro replace_behind_commas) simp
  have 4: "js_replace rx_trim4 [] s = s"
    unfolding rx_trim4_def using no_trim4[OF assms]
    by (intro replace_behind_commas) simp
  have 5: "js_replace rx_trim5 [] s = s"
    unfolding rx_trim5_def using no_trim5[OF assms]
    by (intro replace_behind_commas) simp
  have 6: "js_replace rx_trim6 [] s = s"
    unfolding rx_trim6_def using no_trim6[OF assms, of _ _ "[]"]
    by (intro replace_behind_commas) simp
  from 1 2 3 4 5 6 show ?thesis by (simp add: trim_tail_def)
qed

lemma trim_tail_comma:
  assumes "\<And>a u. s = a @ CHR '','' # u \<Longrightarrow> value_follows u" "list_all is_space w"
  shows "trim_tail (s @ CHR '','' # w) = s"
proof -
  let ?s = "s @ CHR '','' # w"
  let ?x = "CHR '','' # w"
  from assms(2) have sp: "is_space c" if "c \<in> set w" for c
    using that by (simp add: list_all_iff)
  have w: "dq \<notin> set w" "CHR ''['' \<notin> set w" "CHR ''{'' \<notin> set w" "CHR '','' \<notin> set w"
    using sp space_chars(1,2,4,6) by blast+
  then have x: "dq \<notin> set ?x" "CHR ''['' \<notin> set ?x" "CHR ''{'' \<notin> set ?x"
    by (simp_all add: dq_def)
  have cases: "(u = w) \<or> (\<exists>u1. value_follows u1 \<and> u = u1 @ ?x)" if "?s = a @ CHR '','' # u" for a u
  proof -
    from commas_of_extended[OF that w(4)] show ?thesis
    proof
      assume "a = s \<and> u = w"
      then show ?thesis by simp
    next
      assume "\<exists>u1. s = a @ CHR '','' # u1 \<and> u = u1 @ CHR '','' # w"
      then obtain u1 where "s = a @ CHR '','' # u1" "u = u1 @ ?x" by blast
      with assms(1) show ?thesis by blast
    qed
  qed
  have none: "rx_here rx w = None" if "\<And>y. rx_here rx y \<noteq> None \<Longrightarrow> dq \<in> set y" for rx
    using that[of w] w(1) by blast
  have 1: "js_replace rx_trim1 [] ?s = ?s"
    unfolding rx_trim1_def
  proof (rule replace_behind_commas)
    fix a u
    assume "?s = a @ CHR '','' # u"
    from cases[OF this] show "rx_here [ws_star, chr dq, not_star dq, Eoi] u = None"
    proof
      assume "u = w"
      then show ?thesis by (auto intro!: none elim!: tail1_shape)
    next
      assume "\<exists>u1. value_follows u1 \<and> u = u1 @ ?x"
      then show ?thesis using no_trim1[OF _ x(1)] by auto
    qed
  qed
  have 2: "js_replace rx_trim2 [] ?s = ?s"
    unfolding rx_trim2_def
  proof (rule replace_behind_commas)
    fix a u
    assume "?s = a @ CHR '','' # u"
    from cases[OF this] show "rx_here [ws_star, chr dq, not_star dq, chr dq, chr CHR '':'', ws_star,
                  chr dq, not_star dq, Eoi] u = None"
    proof
      assume "u = w"
      then show ?thesis by (auto intro!: none elim!: tail2_shape)
    next
      assume "\<exists>u1. value_follows u1 \<and> u = u1 @ ?x"
      then show ?thesis using no_trim2[OF _ x(1)] by auto
    qed
  qed
  have 3: "js_replace rx_trim3 [] ?s = ?s"
    unfolding rx_trim3_def
  proof (rule replace_behind_commas)
    fix a u
    assume "?s = a @ CHR '','' # u"
    from cases[OF this] show "rx_here [ws_star, chr dq, not_star dq, chr dq, chr CHR '':'', ws_star,
                  chr CHR ''['', not_star CHR '']'', Eoi] u = None"
    proof
      assume "u = w"
      then show ?thesis by (auto intro!: none elim!: tail3_shape)
    next
      assume "\<exists>u1. value_follows u1 \<and> u = u1 @ ?x"
      then show ?thesis using no_trim3[OF _ x(2)] by auto
    qed
  qed
  have 4: "js_replace rx_trim4 [] ?s = ?s"
    unfolding rx_trim4_def
  proof (rule replace_behind_commas)
    fix a u
    assume "?s = a @ CHR '','' # u"
    from cases[OF this] show "rx_here [ws_star, chr dq, not_star dq, chr dq, chr CHR '':'', ws_star,
                  Eoi] u = None"
    proof
      assume "u = w"
      then show ?thesis by (auto intro!: none elim!: tail4_shape)
    next
      assume "\<exists>u1. value_follows u1 \<and> u = u1 @ ?x"
      then show ?thesis using no_trim4_before_comma[OF assms(2)] by auto
    qed
  qed
  have 5: "js_replace rx_trim5 [] ?s = s"
    using search_last_comma[OF assms(2), of s] by (simp add: js_replace_def rx_trim5_def)
  have 6: "js_replace rx_trim6 [] s = s"
    unfolding rx_trim6_def using no_trim6[OF assms(1), of _ _ "[]"]
    by (intro replace_behind_commas) simp
  from 1 2 3 4 5 6 show ?thesis by (simp add: trim_tail_def)
qed
subsection \<open>The extractor on a cut array\<close>

lemma run_rest:
  assumes "run m st s = Some (v, r)" "st \<noteq> [] \<or> m \<noteq> Value" "plain_from False False s"
  shows "\<exists>p. s = p @ r"
  using assms
proof (induction m st s rule: run.induct)
  case (1 m st s)
  show ?case
  proof (cases "step m st s")
    case (Done res)
    with "1.prems"(1) have "step m st s = Done (Some (v, r))" by (simp add: run_stop)
    from step_done[OF this] show ?thesis by simp
  next
    case (Next m' st' s')
    with "1.prems"(1) have run': "run m' st' s' = Some (v, r)" by (simp add: run_next)
    from step_token[OF Next "1.prems"(3)] obtain p la where
      p: "s = p @ s'" "token m st p la m' st'" "plain_from False False s'"
      by blast
    from "1.IH"[OF Next run' token_value_stack[OF p(2)] p(3)] obtain p' where "s' = p' @ r"
      by blast
    with p(1) have "s = (p @ p') @ r" by simp
    then show ?thesis by blast
  qed
qed

lemma blank_rest:
  assumes "t @ '']'' = p @ r" "blank r"
  shows "r = []"
proof (rule ccontr)
  assume "r \<noteq> []"
  with assms(1) have "last r = CHR '']''" by (metis last_appendR last_snoc)
  with \<open>r \<noteq> []\<close> have "CHR '']'' \<in> set r" by (metis last_in_set)
  with assms(2) show False by (auto dest: blank_chars)
qed

lemma plain_closer: "plain_from ins esc (s @ '']'') = plain_from ins esc s"
  by (induction s arbitrary: ins esc) (simp_all add: dq_def)

text \<open>
  A text that is an array once the closing bracket is put behind it: either nothing but
  white space follows the opening bracket, or the parser reads the text to the end.
\<close>

lemma cut_array_run:
  assumes "JSON_parse (CHR ''['' # body @ '']'') = Inr (JArray vs)" "plain_from False False body"
  shows "(blank body \<and> vs = [])
         \<or> (\<not> blank body \<and> run Value [FArr []] (body @ '']'') = Some (JArray vs, []))"
proof -
  from assms(1) obtain r where r: "run Value [] (CHR ''['' # body @ '']'') = Some (JArray vs, r)"
    and "skip_ws r = []"
    by (auto simp: JSON_parse_def split: option.splits if_splits)
  then have br: "blank r" by (intro skip_ws_nothing)
  from assms(2) have pl: "plain_from False False (body @ '']'')" by (simp add: plain_closer)
  have "skip_ws (body @ '']'') \<noteq> []"
  proof
    assume "skip_ws (body @ '']'') = []"
    then have "blank (body @ '']'')" by (rule skip_ws_nothing)
    then show False by (simp add: blank_def is_json_ws_def)
  qed
  then obtain d r' where sk: "skip_ws (body @ '']'') = d # r'"
    by (cases "skip_ws (body @ '']'')") auto
  then obtain w' where w': "blank w'" "body @ '']'' = w' @ d # r'" by (rule skip_ws_split)
  show ?thesis
  proof (cases "d = CHR '']''")
    case True
    with r sk have "vs = []" "r = r'" by (simp_all add: run_bracket)
    with br have "blank r'" by simp
    with w'(2) True have "r' = []" using blank_rest[of body "w' @ '']''" r'] by simp
    with w' True have "blank body" by simp
    with \<open>vs = []\<close> show ?thesis by simp
  next
    case False
    with r sk have run: "run Value [FArr []] (body @ '']'') = Some (JArray vs, r)"
      by (simp add: run_bracket)
    from run_rest[OF run _ pl] obtain p where "body @ '']'' = p @ r" by auto
    from blank_rest[OF this br] have "r = []" .
    moreover have "\<not> blank body"
    proof
      assume "blank body"
      then have "skip_ws (body @ '']'') = '']''" by (simp add: skip_blank skip_stop is_json_ws_def)
      with sk False show False by simp
    qed
    ultimately show ?thesis using run by simp
  qed
qed

lemma count_cut_array:
  assumes "JSON_parse (CHR ''['' # body @ '']'') = Inr (JArray vs)" "plain_from False False body"
  shows "close_open (CHR ''['' # body) = CHR ''['' # body @ '']''"
proof -
  let ?k0 = "\<lparr>inString = False, escape = False, brackets = 0, braces = 0\<rparr>"
  have c0: "clean ?k0" by (simp add: clean_def)
  then have c1: "clean (moved ?k0 1 0)" by (simp add: moved_simps)
  have first: "count_step ?k0 CHR ''['' = moved ?k0 1 0"
    by (simp add: count_step_def moved_def dq_def)
  have "foldl count_step (moved ?k0 1 0) body = moved ?k0 1 0"
    using cut_array_run[OF assms]
  proof
    assume "blank body \<and> vs = []"
    with c1 show ?thesis by (simp add: count_blank)
  next
    assume b: "\<not> blank body \<and> run Value [FArr []] (body @ '']'') = Some (JArray vs, [])"
    from assms(2) have pl: "plain_from False False (body @ '']'')" by (simp add: plain_closer)
    have af: "array_frame [FArr []]" by (simp add: array_frame_def)
    from b have run: "run Value [FArr []] (body @ '']'') = Some (JArray vs, [])" by simp
    from count_run[OF run af pl c1] show ?thesis
      by (simp add: open_objects_def moved_simps)
  qed
  with first have "count_open (CHR ''['' # body) = moved ?k0 1 0"
    by (simp add: count_open_def)
  then show ?thesis by (simp add: close_open_def moved_def)
qed

lemma commas_cut_array:
  assumes "JSON_parse (CHR ''['' # body @ '']'') = Inr (JArray vs)" "plain_from False False body"
    and "CHR ''['' # body = a @ CHR '','' # u"
  shows "value_follows u"
proof -
  from assms(3) obtain a' where a: "body = a' @ CHR '','' # u" by (cases a) auto
  from assms(2) have pl: "plain_from False False (body @ '']'')" by (simp add: plain_closer)
  have af: "array_frame [FArr []]" by (simp add: array_frame_def)
  from cut_array_run[OF assms(1,2)] show ?thesis
  proof
    assume "blank body \<and> vs = []"
    with a show ?thesis by (auto dest: blank_chars)
  next
    assume "\<not> blank body \<and> run Value [FArr []] (body @ '']'') = Some (JArray vs, [])"
    then have run: "run Value [FArr []] (body @ '']'') = Some (JArray vs, [])" by simp
    from commas_run[OF run af pl a] show ?thesis unfolding value_follows_def by blast
  qed
qed

lemma prefix_cut_array:
  assumes "JSON_parse (CHR ''['' # body @ '']'') = Inr (JArray vs)" "plain_from False False body"
    and "JSON_parse (CHR ''['' # body @ CHR '','' # rest) = Inr (JArray xs)"
  shows "prefix vs xs"
proof -
  from assms(2) have pl: "plain_from False False (body @ '']'')" by (simp add: plain_closer)
  have af: "array_frame [FArr []]" by (simp add: array_frame_def)
  from cut_array_run[OF assms(1,2)] show ?thesis
  proof
    assume "blank body \<and> vs = []"
    then show ?thesis by simp
  next
    assume b: "\<not> blank body \<and> run Value [FArr []] (body @ '']'') = Some (JArray vs, [])"
    then have "skip_ws body \<noteq> []" by (auto dest: skip_ws_nothing)
    then obtain d r' where sk: "skip_ws body = d # r'" by (cases "skip_ws body") auto
    from skip_ws_append[OF sk] have sk1: "skip_ws (body @ '']'') = d # r' @ '']''"
      and sk2: "skip_ws (body @ CHR '','' # rest) = d # r' @ CHR '','' # rest"
      by simp_all
    from sk obtain w' where "body = w' @ d # r'" "\<not> is_json_ws d" by (rule skip_ws_split)
    from assms(3) obtain r2 where
      "run Value [] (CHR ''['' # body @ CHR '','' # rest) = Some (JArray xs, r2)"
      by (auto simp: JSON_parse_def split: option.splits if_splits)
    with sk2 have "d = CHR '']'' \<or> run Value [FArr []] (body @ CHR '','' # rest) = Some (JArray xs, r2)"
      by (auto simp: run_bracket split: if_splits)
    moreover have "d \<noteq> CHR '']''"
    proof
      assume d: "d = CHR '']''"
      from assms(1) obtain r where "run Value [] (CHR ''['' # body @ '']'') = Some (JArray vs, r)"
        and "skip_ws r = []"
        by (auto simp: JSON_parse_def split: option.splits if_splits)
      with sk1 d have "skip_ws (r' @ '']'') = []" by (simp add: run_bracket)
      then have "blank (r' @ '']'')" by (rule skip_ws_nothing)
      then show False by (simp add: blank_def is_json_ws_def)
    qed
    ultimately have "run Value [FArr []] (body @ CHR '','' # rest) = Some (JArray xs, r2)" by simp
    moreover from b have "run Value [FArr []] (body @ '']'') = Some (JArray vs, [])" by simp
    ultimately obtain more where "JArray xs = JArray (vs @ more)"
      using prefix_run[OF _ af pl] by blast
    then show ?thesis by simp
  qed
qed

subsection \<open>Matches of the bracket patterns\<close>

text \<open>A pattern that asks for a character the text does not have finds nothing.\<close>

lemma star_then_missing:
  "c \<notin> set s \<Longrightarrow> rx_here (Many p # One (\<lambda>x. x = c) # rest) s = None"
  by (induction s) auto

lemma search_missing:
  "c \<notin> set s \<Longrightarrow> rx_search (One a # Many p # One (\<lambda>x. x = c) # rest) s = None"
  by (induction s) (auto simp: star_then_missing)

lemma star_takes_all: "rx_here [Many (\<lambda>x. True)] s = Some s"
  by (induction s) auto

lemma no_direct_match: "CHR '']'' \<notin> set s \<Longrightarrow> js_match rx_array s = None"
  by (simp add: js_match_def rx_array_def chr_def any_star_def search_missing)

lemma open_match: "js_match rx_array_open (CHR ''['' # s) = Some (CHR ''['' # s)"
  by (simp add: js_match_def rx_array_open_def chr_def any_star_def star_takes_all)

lemma whole_cut_array:
  assumes "JSON_parse (CHR ''['' # body @ '']'') = Inr (JArray vs)" "plain_from False False body"
    and "JSON_parse (CHR ''['' # body @ CHR '']'' # rest) = Inr (JArray xs)"
  shows "xs = vs"
proof -
  from assms(1) obtain r where "run Value [] (CHR ''['' # body @ '']'') = Some (JArray vs, r)"
    by (auto simp: JSON_parse_def split: option.splits if_splits)
  moreover from assms(2) have "plain_from False False (body @ '']'')" by (simp add: plain_closer)
  ultimately have "run Value [] (CHR ''['' # (body @ '']'') @ rest) = Some (JArray vs, r @ rest)"
    by (rule run_extend_bracket)
  with assms(3) show ?thesis
    by (auto simp: JSON_parse_def split: option.splits if_splits)
qed

text \<open>The first block: no match, or a match that is a shorter text and does not parse.\<close>

lemma direct_parse_cut:
  assumes "JSON_parse (CHR ''['' # body @ '']'') = Inr v" "plain_from False False body"
    and "CHR '']'' \<notin> set x"
  shows "direct_parse (CHR ''['' # body @ x) True = Inr None
         \<or> direct_parse (CHR ''['' # body @ x) True = Inl SyntaxError"
proof (cases "CHR '']'' \<in> set body")
  case False
  with assms(3) have "CHR '']'' \<notin> set (CHR ''['' # body @ x)" by simp
  from no_direct_match[OF this] show ?thesis by (simp add: direct_parse_def)
next
  case True
  then obtain b1 post where b: "body = b1 @ CHR '']'' # post" "CHR '']'' \<notin> set post"
    by (metis split_list_last)
  have "CHR ''['' \<notin> set []" by simp
  moreover from b(2) assms(3) have "CHR '']'' \<notin> set (post @ x)" by simp
  ultimately have "rx_search [One (\<lambda>x. x = CHR ''[''), Many (\<lambda>x. True), One (\<lambda>x. x = CHR '']'')]
      ([] @ CHR ''['' # b1 @ CHR '']'' # post @ x) = Some ([], CHR ''['' # b1 @ '']'', post @ x)"
    by (rule search_bracketed)
  with b(1) have m: "js_match rx_array (CHR ''['' # body @ x) = Some (CHR ''['' # b1 @ '']'')"
    by (simp add: js_match_def rx_array_def chr_def any_star_def)
  from assms(1) b(1) have 1: "JSON_parse (CHR ''['' # (b1 @ '']'') @ (post @ '']'')) = Inr v" by simp
  have 2: "\<not> blank (post @ '']'')" by (simp add: blank_def is_json_ws_def)
  from assms(2) b(1) have "plain_from False False ((b1 @ '']'') @ post)" by simp
  then have 3: "plain_from False False (b1 @ '']'')" by (rule plain_prefix)
  from shorter_array_invalid[OF 1 2 3] have "JSON_parse (CHR ''['' # b1 @ '']'') = Inl SyntaxError" .
  with m show ?thesis by (simp add: direct_parse_def)
qed

lemma extract_by_repair:
  assumes "direct_parse text True = Inr None \<or> direct_parse text True = Inl e"
    and "text \<noteq> []" "repaired text True = Some jsonStr" "JSON_parse jsonStr = Inr v"
  shows "parseJSONSafely text True = Inr (Some v)"
  using assms by (auto simp: parseJSONSafely_def)

lemma repaired_bracket:
  "repaired (CHR ''['' # s) True = Some (close_open (trim_tail (CHR ''['' # s)))"
  using open_match[of s] by (simp add: repaired_def)
subsection \<open>Cuts of an array\<close>

text \<open>
  Claim C5, as stated: a valid JSON array truncated at any offset behind its first
  element is extracted to a non-null sequence whose elements are a prefix of the
  original ones. Both parts fail. The array \<open>[1,25]\<close> cut after four characters is
  \<open>[1,2\<close> and is extracted to \<open>[1, 2]\<close>, whose second element the original never held;
  the array \<open>[1,true]\<close> cut after five characters is \<open>[1,tr\<close> and is extracted to
  \<open>null\<close>. A cut inside an object gives that object with the members read so far:
  \<^verbatim>\<open>[{"a":1},{"b":{"c":1},"d":25}]\<close> cut after 21 characters is extracted to
  \<^verbatim>\<open>[{"a":1},{"b":{"c":1}}]\<close>. A cut between two elements can fail as well, when
  a string literal holds a comma or an escaped quote: the array \<^verbatim>\<open>[1,",",2]\<close> cut
  after six characters is \<^verbatim>\<open>[1,","\<close>, the first trim pattern takes the comma
  inside the string for the start of an incomplete string, and the result is \<open>null\<close>;
  the array \<^verbatim>\<open>[{"k":1,"a\":":5},7]\<close> cut behind the comma that follows its first
  element loses the second member of that element to the second trim pattern.
\<close>

theorem cut_inside_element:
  "JSON_parse ''[1,25]'' = Inr (JArray [JNumber 1, JNumber 25])
   \<and> cut_in_number = ''[1,2''
   \<and> parseJSONSafely cut_in_number True = Inr (Some (JArray [JNumber 1, JNumber 2]))
   \<and> \<not> prefix [JNumber 1, JNumber 2] [JNumber 1, JNumber 25]
   \<and> JSON_parse ''[1,true]'' = Inr (JArray [JNumber 1, JBool True])
   \<and> cut_in_literal = ''[1,tr''
   \<and> parseJSONSafely cut_in_literal True = Inr None
   \<and> JSON_parse nested_object_array
       = Inr (JArray [JObject [(lit ''a'', JNumber 1)],
                      JObject [(lit ''b'', JObject [(lit ''c'', JNumber 1)]), (lit ''d'', JNumber 25)]])
   \<and> parseJSONSafely cut_in_object True
       = Inr (Some (JArray [JObject [(lit ''a'', JNumber 1)],
                            JObject [(lit ''b'', JObject [(lit ''c'', JNumber 1)])]]))
   \<and> \<not> prefix [JObject [(lit ''a'', JNumber 1)], JObject [(lit ''b'', JObject [(lit ''c'', JNumber 1)])]]
         [JObject [(lit ''a'', JNumber 1)],
          JObject [(lit ''b'', JObject [(lit ''c'', JNumber 1)]), (lit ''d'', JNumber 25)]]
   \<and> JSON_parse comma_string_array = Inr (JArray [JNumber 1, JString (lit '',''), JNumber 2])
   \<and> length cut_after_comma_string = 6
   \<and> parseJSONSafely cut_after_comma_string True = Inr None
   \<and> JSON_parse escaped_quote_array
       = Inr (JArray [JObject [(lit ''k'', JNumber 1), (lit ''a'' @ [0x22, 0x3A], JNumber 5)],
                      JNumber 7])
   \<and> length cut_behind_escaped_quote = 18
   \<and> parseJSONSafely cut_behind_escaped_quote True
       = Inr (Some (JArray [JObject [(lit ''k'', JNumber 1)]]))
   \<and> \<not> prefix [JObject [(lit ''k'', JNumber 1)]]
         [JObject [(lit ''k'', JNumber 1), (lit ''a'' @ [0x22, 0x3A], JNumber 5)], JNumber 7]"
  by code_simp

text \<open>
  Claim C5, amended. Take a text that starts with an opening bracket, whose string
  literals hold no comma and no escaped quote, and that is an array once a closing
  bracket is put behind it: the text of an array cut between two of its elements, behind
  a complete element. Whatever the elements are (numbers, literals, strings, arrays,
  objects, nested to any depth, with any white space of JSON between the tokens), the
  extractor with array shape returns exactly the elements before the cut. It does so as
  well when the cut is behind the comma that follows and any white space behind that
  comma. These elements are a prefix of the elements of the original array: of every
  array whose text goes on with a comma where the cut is, and they are all the elements
  of an array whose text goes on with the closing bracket.
\<close>

theorem cut_between_elements:
  assumes "JSON_parse (CHR ''['' # body @ '']'') = Inr (JArray vs)"
    and "plain_strings (CHR ''['' # body)"
  shows "parseJSONSafely (CHR ''['' # body) True = Inr (Some (JArray vs))
    \<and> (\<forall>w. blank w \<longrightarrow>
          parseJSONSafely (CHR ''['' # body @ CHR '','' # w) True = Inr (Some (JArray vs)))
    \<and> (\<forall>rest xs. JSON_parse (CHR ''['' # body @ CHR '','' # rest) = Inr (JArray xs) \<longrightarrow>
          prefix vs xs)
    \<and> (\<forall>rest xs. JSON_parse (CHR ''['' # body @ CHR '']'' # rest) = Inr (JArray xs) \<longrightarrow>
          xs = vs)"
proof -
  let ?T = "CHR ''['' # body"
  note boundary = assms(1)
  from assms(2) have pb: "plain_from False False body"
    by (simp add: plain_strings_def dq_def)
  have commas: "value_follows u" if "?T = a @ CHR '','' # u" for a u
    using boundary pb that by (rule commas_cut_array)
  have closed: "close_open ?T = ?T @ '']''"
    using count_cut_array[OF boundary pb] by simp
  have "trim_tail ?T = ?T" using commas by (rule trim_tail_complete)
  with closed have r1: "repaired ?T True = Some (?T @ '']'')"
    by (simp add: repaired_bracket)
  have d1: "direct_parse ?T True = Inr None \<or> direct_parse ?T True = Inl SyntaxError"
    using direct_parse_cut[OF boundary pb, of "[]"] by simp
  have c1: "parseJSONSafely ?T True = Inr (Some (JArray vs))"
    using d1 _ r1 by (rule extract_by_repair) (use boundary in simp_all)
  have c2: "parseJSONSafely (?T @ CHR '','' # w) True = Inr (Some (JArray vs))" if "blank w" for w
  proof -
    from that have sp: "list_all is_space w"
      unfolding blank_def by (rule list.pred_mono_strong) (rule json_ws_is_space)
    from that have "CHR '']'' \<notin> set (CHR '','' # w)" by (auto dest: blank_chars)
    from direct_parse_cut[OF boundary pb this]
    have d2: "direct_parse (?T @ CHR '','' # w) True = Inr None
              \<or> direct_parse (?T @ CHR '','' # w) True = Inl SyntaxError" by simp
    have "trim_tail (?T @ CHR '','' # w) = ?T" using commas sp by (rule trim_tail_comma)
    with closed repaired_bracket[of "body @ CHR '','' # w"]
    have r2: "repaired (?T @ CHR '','' # w) True = Some (?T @ '']'')" by simp
    show ?thesis
      using d2 _ r2 by (rule extract_by_repair) (use boundary in simp_all)
  qed
  have c3: "prefix vs xs" if "JSON_parse (?T @ CHR '','' # rest) = Inr (JArray xs)" for rest xs
    using boundary pb that[simplified] by (rule prefix_cut_array)
  have c4: "xs = vs" if "JSON_parse (?T @ CHR '']'' # rest) = Inr (JArray xs)" for rest xs
    using boundary pb that[simplified] by (rule whole_cut_array)
  from c1 c2 c3 c4 show ?thesis by simp
qed

text \<open>
  An instance: three objects with white space between the tokens, cut behind the second
  object and behind the comma and the line break that follow it.
\<close>

theorem cut_between_elements_witness:
  "JSON_parse (CHR ''['' # two_objects @ '']'') = Inr (JArray [ranked 1 ''A'', ranked 2 ''B''])
   \<and> plain_strings (CHR ''['' # two_objects)
   \<and> blank line_break
   \<and> JSON_parse (CHR ''['' # two_objects @ CHR '','' # line_break @ third_object)
       = Inr (JArray [ranked 1 ''A'', ranked 2 ''B'', ranked 3 ''C''])
   \<and> parseJSONSafely (CHR ''['' # two_objects) True
       = Inr (Some (JArray [ranked 1 ''A'', ranked 2 ''B'']))
   \<and> parseJSONSafely (CHR ''['' # two_objects @ CHR '','' # line_break) True
       = Inr (Some (JArray [ranked 1 ''A'', ranked 2 ''B'']))
   \<and> prefix [ranked 1 ''A'', ranked 2 ''B''] [ranked 1 ''A'', ranked 2 ''B'', ranked 3 ''C'']"
proof -
  have h1: "JSON_parse (CHR ''['' # two_objects @ '']'') = Inr (JArray [ranked 1 ''A'', ranked 2 ''B''])"
    by code_simp
  have h2: "plain_strings (CHR ''['' # two_objects)"
    by code_simp
  have h3: "blank line_break"
    by (simp add: blank_def line_break_def is_json_ws_def)
  have h4: "JSON_parse (CHR ''['' # two_objects @ CHR '','' # line_break @ third_object)
       = Inr (JArray [ranked 1 ''A'', ranked 2 ''B'', ranked 3 ''C''])"
    by code_simp
  note t = cut_between_elements[OF h1 h2]
  from t have r1: "parseJSONSafely (CHR ''['' # two_objects) True
       = Inr (Some (JArray [ranked 1 ''A'', ranked 2 ''B'']))"
    by simp
  from t h3 have r2: "parseJSONSafely (CHR ''['' # two_objects @ CHR '','' # line_break) True
       = Inr (Some (JArray [ranked 1 ''A'', ranked 2 ''B'']))"
    by simp
  from t h4 have r3: "prefix [ranked 1 ''A'', ranked 2 ''B''] [ranked 1 ''A'', ranked 2 ''B'', ranked 3 ''C'']"
    by blast
  show ?thesis
    by (intro conjI) (fact h1 h2 h3 h4 r1 r2 r3)+
qed
section \<open>Properties of the tabular ingest\<close>

lemma split_on_nonempty: "split_on sep s \<noteq> []"
  by (induction s) (auto split: list.splits)

text \<open>
  Claim C8, as stated: \<open>parseCSV\<close> on empty text fails with a FormatError. It does not
  fail: \<open>''.trim().split('\n')\<close> is the one-element array of the empty line, which gives
  one empty header and no rows.
\<close>

theorem parseCSV_empty_text_returns:
  "parseCSV (\<lambda>_. NaN) (\<lambda>_. NaN) [] = Inr ([[]], [])"
  by (simp add: parseCSV_def trim_def clean_field_def)

text \<open>
  Claim C8, amended: \<open>parseCSV\<close> never fails on a string. Every text yields a result
  with at least one header and one row for each line after the first; the empty text
  yields the single empty header and no rows.
\<close>

theorem parseCSV_always_returns:
  "(\<exists>hs rows. parseCSV s2n pf text = Inr (hs, rows) \<and> length hs \<ge> 1
      \<and> length rows = length (split_on CHR 0x0A (trim text)) - 1)
   \<and> parseCSV s2n pf [] = Inr ([[]], [])"
proof -
  obtain l0 rest where l: "split_on CHR 0x0A (trim text) = l0 # rest"
    using split_on_nonempty[of "CHR 0x0A" "trim text"] by (cases "split_on CHR 0x0A (trim text)") auto
  have "map clean_field (split_on CHR '','' l0) \<noteq> []"
    by (simp add: split_on_nonempty)
  then have "length (map clean_field (split_on CHR '','' l0)) \<ge> 1"
    by (cases "map clean_field (split_on CHR '','' l0)") auto
  with l have "\<exists>hs rows. parseCSV s2n pf text = Inr (hs, rows) \<and> length hs \<ge> 1
      \<and> length rows = length (split_on CHR 0x0A (trim text)) - 1"
    by (simp add: parseCSV_def Let_def)
  moreover have "parseCSV s2n pf [] = Inr ([[]], [])"
    by (simp add: parseCSV_def trim_def clean_field_def)
  ultimately show ?thesis by blast
qed

section \<open>Properties of the workflows\<close>

subsection \<open>Experimental design and literature analysis\<close>

text \<open>
  An invocation of experimental design or of literature analysis that ends in an error
  leaves all three stored results as they were, whatever the hypothesis, the context and
  the outcome of the request; hypothesis generation leaves the results of the other two
  workflows as they were, and does nothing without a selected type.
\<close>

lemma design_error_keeps_results:
  assumes "error (generateExperimentalDesign h http st) \<noteq> None"
  shows "hypotheses (generateExperimentalDesign h http st) = hypotheses st"
    and "experimentalDesign (generateExperimentalDesign h http st) = experimentalDesign st"
    and "literatureAnalysis (generateExperimentalDesign h http st) = literatureAnalysis st"
  using assms
  by (auto simp: generateExperimentalDesign_def Let_def split: sum.splits option.splits if_splits)

lemma literature_error_keeps_results:
  assumes "error (generateLiteratureAnalysis ctx http st) \<noteq> None"
  shows "hypotheses (generateLiteratureAnalysis ctx http st) = hypotheses st"
    and "experimentalDesign (generateLiteratureAnalysis ctx http st) = experimentalDesign st"
    and "literatureAnalysis (generateLiteratureAnalysis ctx http st) = literatureAnalysis st"
  using assms
  by (auto simp: generateLiteratureAnalysis_def Let_def split: sum.splits if_splits)

lemma generation_keeps_other_results:
  "experimentalDesign (generateHypotheses ctx http st) = experimentalDesign st"
  "literatureAnalysis (generateHypotheses ctx http st) = literatureAnalysis st"
  by (auto simp: generateHypotheses_def Let_def split: sum.splits option.splits if_splits)

lemma generation_without_type: "selectedType st = None \<Longrightarrow> generateHypotheses ctx http st = st"
  by (simp add: generateHypotheses_def)

text \<open>
  A hypothesis whose prediction cannot be converted to a string: the prompt raises, the
  invocation ends in that error and the stored design stays.
\<close>

lemma design_prompt_raises:
  "design_prompt (JObject [(lit ''title'', JString (lit ''A'')),
      (lit ''predictions'', JArray [JObject [(lit ''toString'', JNumber 1)]])]) = Inl TypeError"
  by code_simp

subsection \<open>Hypothesis generation\<close>

text \<open>
  Claim C9. A workflow invocation that ends in an error leaves the stored result of its
  own workflow and those of the other workflows unchanged. The two workflows above do
  so, setting their result only after the response is parsed. \<open>generateHypotheses\<close>
  calls \<open>setHypotheses(null)\<close> before its \<open>try\<close>: in a session that holds hypotheses, a
  request that the server rejects ends in the error and leaves the hypotheses slot
  empty. On the same session with the same rejected request, the other two workflows
  keep their stored results.
\<close>

theorem failed_generation_clears_hypotheses:
  "hypotheses stored_state = Some (JArray [ranked 1 ''A''])
   \<and> error (generateHypotheses (Inr []) server_error stored_state) = Some (Msg ''API error: 500'')
   \<and> hypotheses (generateHypotheses (Inr []) server_error stored_state) = None
   \<and> error (generateExperimentalDesign (ranked 1 ''A'') server_error stored_state)
       = Some (Msg ''API error: 500'')
   \<and> experimentalDesign (generateExperimentalDesign (ranked 1 ''A'') server_error stored_state)
       = experimentalDesign stored_state
   \<and> error (generateLiteratureAnalysis (Inr []) server_error stored_state)
       = Some (Msg ''API error: 500'')
   \<and> literatureAnalysis (generateLiteratureAnalysis (Inr []) server_error stored_state)
       = literatureAnalysis stored_state"
  by code_simp

end
